theory Spec2Isabelle
  imports Complex_Main "HOL-Library.While_Combinator"
begin

section \<open>Strings\<close>

text \<open>
  A JavaScript string is a sequence of UTF-16 code units. A code unit is modelled as a
  natural number, so every JavaScript string is covered; string literals of the source
  are written \<open>js ''...''\<close> and single characters \<open>cu CHR ''x''\<close>.
\<close>

type_synonym jsstring = "nat list"

abbreviation cu :: "char \<Rightarrow> nat" where
  "cu \<equiv> of_char"

definition js :: "string \<Rightarrow> jsstring" where
  "js s = map of_char s"

abbreviation c_newline :: nat where "c_newline \<equiv> 10"
abbreviation c_squote :: nat where "c_squote \<equiv> cu (CHR 0x27)"
abbreviation c_dquote :: nat where "c_dquote \<equiv> cu (CHR 0x22)"
abbreviation c_backslash :: nat where "c_backslash \<equiv> cu (CHR 0x5C)"
abbreviation c_backtick :: nat where "c_backtick \<equiv> cu (CHR 0x60)"

text \<open>The regular expression \<open>/\<bslash>s/\<close> of ECMAScript (white space and line terminators).\<close>

definition isSpace :: "nat \<Rightarrow> bool" where
  "isSpace c \<longleftrightarrow>
     c = 9 \<or> c = 10 \<or> c = 11 \<or> c = 12 \<or> c = 13 \<or> c = 32 \<or> c = 160 \<or> c = 5760 \<or>
     (8192 \<le> c \<and> c \<le> 8202) \<or> c = 8232 \<or> c = 8233 \<or> c = 8239 \<or> c = 8287 \<or>
     c = 12288 \<or> c = 65279"

text \<open>The class \<open>\<bslash>w\<close> (without the unicode flag): \<open>[A-Za-z0-9_]\<close>.\<close>

definition isWord :: "nat \<Rightarrow> bool" where
  "isWord c \<longleftrightarrow> (48 \<le> c \<and> c \<le> 57) \<or> (65 \<le> c \<and> c \<le> 90) \<or> c = 95 \<or> (97 \<le> c \<and> c \<le> 122)"

text \<open>\<open>s.slice(a, b)\<close> for non-negative \<open>a\<close> and \<open>b\<close>: both ends are clamped to the
  length and an empty string results when \<open>b \<le> a\<close>.\<close>

definition slice :: "jsstring \<Rightarrow> nat \<Rightarrow> nat \<Rightarrow> jsstring" where
  "slice s a b = take (b - a) (drop a s)"

text \<open>\<open>s.startsWith(p, i)\<close>.\<close>

definition startsWithAt :: "jsstring \<Rightarrow> jsstring \<Rightarrow> nat \<Rightarrow> bool" where
  "startsWithAt s p i \<longleftrightarrow> take (length p) (drop i s) = p"

text \<open>\<open>next === c\<close> where \<open>next = i + 1 < source.length ? source[i + 1] : ''\<close>: the empty
  string equals no character.\<close>

definition nextIs :: "jsstring \<Rightarrow> nat \<Rightarrow> nat \<Rightarrow> bool" where
  "nextIs src i c \<longleftrightarrow> i + 1 < length src \<and> src ! (i + 1) = c"

section \<open>The regex-or-division heuristic\<close>

text \<open>
  The two backward loops of \<open>looksLikeRegexStart\<close> run an index \<open>j\<close> down to \<open>-1\<close>. Both
  functions below take and return \<open>j + 1\<close>, so that \<open>0\<close> stands for \<open>j = -1\<close>.
\<close>

fun skipSpaceBack :: "jsstring \<Rightarrow> nat \<Rightarrow> nat" where
  "skipSpaceBack src 0 = 0"
| "skipSpaceBack src (Suc j) = (if isSpace (src ! j) then skipSpaceBack src j else Suc j)"

fun skipWordBack :: "jsstring \<Rightarrow> nat \<Rightarrow> nat" where
  "skipWordBack src 0 = 0"
| "skipWordBack src (Suc k) =
     (if isWord (src ! k) \<or> src ! k = cu CHR ''$'' then skipWordBack src k else Suc k)"

definition looksLikeRegexStart :: "jsstring \<Rightarrow> nat \<Rightarrow> bool" where
  "looksLikeRegexStart src slashIdx =
     (if nextIs src slashIdx (cu CHR ''/'') \<or> nextIs src slashIdx (cu CHR ''*'') then False
      else case skipSpaceBack src slashIdx of
        0 \<Rightarrow> True
      | Suc j \<Rightarrow>
          let prev = src ! j in
          if prev = cu CHR '')'' \<or> prev = cu CHR '']'' \<or> prev = cu CHR ''}'' then False
          else if isWord prev \<or> prev = cu CHR ''$'' then
            (let word = slice src (skipWordBack src (Suc j)) (Suc j)
             in word = js ''return'' \<or> word = js ''throw'' \<or> word = js ''case'')
          else if prev = cu CHR ''.'' \<or> prev = c_dquote \<or> prev = c_squote \<or> prev = c_backtick
            then False
          else if prev \<in> set (js ''([{,:;=!?~+-*%&|^<>'') then True
          else False)"

section \<open>The lexical context tracker\<close>

datatype mode = Code | Single | Double | Template | Regex | LineComment | BlockComment

text \<open>The scanner variables \<open>mode\<close>, \<open>regexInClass\<close>, \<open>templateExprDepth\<close> and
  \<open>templateExprStack\<close>; the head of the list is the top of the stack.\<close>

record lex =
  mode :: mode
  regexInClass :: bool
  templateExprDepth :: int
  templateExprStack :: "int list"

definition lexInit :: lex where
  "lexInit = \<lparr>mode = Code, regexInClass = False, templateExprDepth = 0, templateExprStack = []\<rparr>"

text \<open>
  \<open>findNextDCallStart\<close> and \<open>findMatchingParen\<close> have the same loop body up to their last
  statement. \<open>lexStep src st i\<close> is that common part for one iteration at index \<open>i\<close>:
  \<open>Continue st' i'\<close> when a \<open>continue\<close> is reached with variables \<open>st'\<close> and index \<open>i'\<close>
  (the loop header then increments \<open>i'\<close>), \<open>Fall st'\<close> when control reaches the last
  statement of the body.
\<close>

datatype step = Continue lex nat | Fall lex

definition lexStep :: "jsstring \<Rightarrow> lex \<Rightarrow> nat \<Rightarrow> step" where
  "lexStep src st i =
     (let ch = src ! i in
      case mode st of
        LineComment \<Rightarrow>
          if ch = c_newline then Continue (st\<lparr>mode := Code\<rparr>) i else Continue st i
      | BlockComment \<Rightarrow>
          if ch = cu CHR ''*'' \<and> nextIs src i (cu CHR ''/'')
          then Continue (st\<lparr>mode := Code\<rparr>) (i + 1) else Continue st i
      | Single \<Rightarrow>
          if ch = c_backslash then Continue st (i + 1)
          else if ch = c_squote then Continue (st\<lparr>mode := Code\<rparr>) i
          else Continue st i
      | Double \<Rightarrow>
          if ch = c_backslash then Continue st (i + 1)
          else if ch = c_dquote then Continue (st\<lparr>mode := Code\<rparr>) i
          else Continue st i
      | Template \<Rightarrow>
          if ch = c_backslash then Continue st (i + 1)
          else if ch = c_backtick then
            Continue (st\<lparr>templateExprDepth :=
                           (case templateExprStack st of [] \<Rightarrow> 0 | d # _ \<Rightarrow> d),
                         templateExprStack := tl (templateExprStack st),
                         mode := Code\<rparr>) i
          else if ch = cu CHR ''$'' \<and> nextIs src i (cu CHR ''{'')
          then Continue (st\<lparr>templateExprDepth := 1, mode := Code\<rparr>) (i + 1)
          else Continue st i
      | Regex \<Rightarrow>
          if ch = c_backslash then Continue st (i + 1)
          else if ch = cu CHR ''['' then Continue (st\<lparr>regexInClass := True\<rparr>) i
          else if ch = cu CHR '']'' \<and> regexInClass st
          then Continue (st\<lparr>regexInClass := False\<rparr>) i
          else if ch = cu CHR ''/'' \<and> \<not> regexInClass st
          then Continue (st\<lparr>mode := Code\<rparr>) i
          else Continue st i
      | Code \<Rightarrow>
          if ch = cu CHR ''/'' \<and> nextIs src i (cu CHR ''/'')
          then Continue (st\<lparr>mode := LineComment\<rparr>) (i + 1)
          else if ch = cu CHR ''/'' \<and> nextIs src i (cu CHR ''*'')
          then Continue (st\<lparr>mode := BlockComment\<rparr>) (i + 1)
          else if ch = c_squote then Continue (st\<lparr>mode := Single\<rparr>) i
          else if ch = c_dquote then Continue (st\<lparr>mode := Double\<rparr>) i
          else if ch = c_backtick then
            Continue (st\<lparr>templateExprStack := templateExprDepth st # templateExprStack st,
                         templateExprDepth := 0,
                         mode := Template\<rparr>) i
          else if ch = cu CHR ''/'' \<and> looksLikeRegexStart src i
          then Continue (st\<lparr>mode := Regex, regexInClass := False\<rparr>) i
          else if templateExprDepth st > 0 then
            (if ch = cu CHR ''{''
             then Fall (st\<lparr>templateExprDepth := templateExprDepth st + 1\<rparr>)
             else if ch = cu CHR ''}'' then
               (if templateExprDepth st - 1 = 0
                then Continue (st\<lparr>templateExprDepth := templateExprDepth st - 1,
                                  mode := Template\<rparr>) i
                else Fall (st\<lparr>templateExprDepth := templateExprDepth st - 1\<rparr>))
             else Fall st)
          else Fall st)"

text \<open>The state and the index with which the next iteration starts.\<close>

fun stepState :: "step \<Rightarrow> lex" where
  "stepState (Continue st i) = st"
| "stepState (Fall st) = st"

fun stepNext :: "nat \<Rightarrow> step \<Rightarrow> nat" where
  "stepNext i (Continue st i') = i' + 1"
| "stepNext i (Fall st) = i + 1"

lemma lexStep_Continue_ge: "lexStep src st i = Continue st' i' \<Longrightarrow> i \<le> i'"
  by (auto simp: lexStep_def Let_def split: mode.splits if_splits)

section \<open>The call locator\<close>

abbreviation marker :: jsstring where
  "marker \<equiv> js ''__d(''"

text \<open>The loop of \<open>findNextDCallStart\<close>; \<open>None\<close> is the result \<open>-1\<close>.\<close>

function scanD :: "jsstring \<Rightarrow> lex \<Rightarrow> nat \<Rightarrow> nat option" where
  "scanD src st i =
     (if i < length src then
        (case lexStep src st i of
           Continue st' i' \<Rightarrow> scanD src st' (i' + 1)
         | Fall st' \<Rightarrow>
             if src ! i = cu CHR ''_'' \<and> startsWithAt src marker i then Some i
             else scanD src st' (i + 1))
      else None)"
  by pat_completeness auto
termination
  by (relation "measure (\<lambda>(src, st, i). length src - i)")
     (auto dest: lexStep_Continue_ge)

declare scanD.simps [simp del]

definition findNextDCallStart :: "jsstring \<Rightarrow> nat \<Rightarrow> nat option" where
  "findNextDCallStart source fromIdx = scanD source lexInit fromIdx"

section \<open>The balanced-extent matcher\<close>

datatype error = NoMatchingParen

text \<open>The loop of \<open>findMatchingParen\<close>; leaving the loop throws.\<close>

function scanP :: "jsstring \<Rightarrow> lex \<Rightarrow> int \<Rightarrow> nat \<Rightarrow> error + nat" where
  "scanP src st depth i =
     (if i < length src then
        (case lexStep src st i of
           Continue st' i' \<Rightarrow> scanP src st' depth (i' + 1)
         | Fall st' \<Rightarrow>
             if src ! i = cu CHR ''('' then scanP src st' (depth + 1) (i + 1)
             else if src ! i = cu CHR '')'' then
               (if depth - 1 = 0 then Inr i else scanP src st' (depth - 1) (i + 1))
             else scanP src st' depth (i + 1))
      else Inl NoMatchingParen)"
  by pat_completeness auto
termination
  by (relation "measure (\<lambda>(src, st, depth, i). length src - i)")
     (auto dest: lexStep_Continue_ge)

declare scanP.simps [simp del]

definition findMatchingParen :: "jsstring \<Rightarrow> nat \<Rightarrow> error + nat" where
  "findMatchingParen source openParenIdx = scanP source lexInit 0 openParenIdx"

section \<open>The module extractor\<close>

text \<open>\<open>while (end < source.length && /\<bslash>s/.test(source[end])) end++\<close>\<close>

function skipSpace :: "jsstring \<Rightarrow> nat \<Rightarrow> nat" where
  "skipSpace src e = (if e < length src \<and> isSpace (src ! e) then skipSpace src (e + 1) else e)"
  by pat_completeness auto
termination
  by (relation "measure (\<lambda>(src, e). length src - e)") auto

declare skipSpace.simps [simp del]

text \<open>
  One iteration of the loop of \<open>extractDCalls\<close> with cursor \<open>i\<close>: \<open>Stop\<close> is the \<open>break\<close>,
  \<open>Pushed start end\<close> the normal end of the \<open>try\<close> block (the span pushed and the new
  cursor), \<open>Failed start e\<close> the \<open>catch\<close> block.
\<close>

datatype iter = Stop | Pushed nat nat | Failed nat error

definition extractIter :: "jsstring \<Rightarrow> nat \<Rightarrow> iter" where
  "extractIter source i =
     (case findNextDCallStart source i of
        None \<Rightarrow> Stop
      | Some start \<Rightarrow>
          (let openParenIdx = start + length (js ''__d'') in
           case findMatchingParen source openParenIdx of
             Inr closeParenIdx \<Rightarrow>
               (let end1 = skipSpace source (closeParenIdx + 1);
                    end2 = (if end1 < length source \<and> source ! end1 = cu CHR '';''
                            then end1 + 1 else end1)
                in Pushed start end2)
           | Inl e \<Rightarrow> Failed start e))"

text \<open>The cursor after an iteration that did not leave the loop.\<close>

fun iterCursor :: "iter \<Rightarrow> nat option" where
  "iterCursor Stop = None"
| "iterCursor (Pushed start end2) = Some end2"
| "iterCursor (Failed start e) = Some (start + length marker)"

lemma scanD_Some:
  "scanD src st i = Some p \<Longrightarrow> i \<le> p \<and> p < length src \<and> startsWithAt src marker p"
proof (induction src st i rule: scanD.induct)
  case (1 src st i)
  from "1.prems" have lt: "i < length src"
    by (subst (asm) scanD.simps) (simp split: if_splits)
  show ?case
  proof (cases "lexStep src st i")
    case (Continue st' i')
    with "1.prems" lt have "scanD src st' (i' + 1) = Some p"
      by (subst (asm) scanD.simps) simp
    from "1.IH"(1)[OF lt Continue this] lexStep_Continue_ge[OF Continue]
    show ?thesis by simp
  next
    case (Fall st')
    show ?thesis
    proof (cases "src ! i = cu CHR ''_'' \<and> startsWithAt src marker i")
      case True
      with "1.prems" lt Fall have "p = i"
        by (subst (asm) scanD.simps) simp
      with True lt show ?thesis by simp
    next
      case False
      with "1.prems" lt Fall have "scanD src st' (i + 1) = Some p"
        by (subst (asm) scanD.simps) auto
      from "1.IH"(2)[OF lt Fall False this] show ?thesis by simp
    qed
  qed
qed

lemma scanP_Inr:
  "scanP src st depth i = Inr c \<Longrightarrow> i \<le> c \<and> c < length src \<and> src ! c = cu CHR '')''"
proof (induction src st depth i rule: scanP.induct)
  case (1 src st depth i)
  from "1.prems" have lt: "i < length src"
    by (subst (asm) scanP.simps) (simp split: if_splits)
  show ?case
  proof (cases "lexStep src st i")
    case (Continue st' i')
    with "1.prems" lt have "scanP src st' depth (i' + 1) = Inr c"
      by (subst (asm) scanP.simps) simp
    from "1.IH"(1)[OF lt Continue this] lexStep_Continue_ge[OF Continue]
    show ?thesis by simp
  next
    case (Fall st')
    consider (op) "src ! i = cu CHR ''(''"
      | (cl0) "src ! i \<noteq> cu CHR ''(''" "src ! i = cu CHR '')''" "depth - 1 = 0"
      | (cl) "src ! i \<noteq> cu CHR ''(''" "src ! i = cu CHR '')''" "depth - 1 \<noteq> 0"
      | (other) "src ! i \<noteq> cu CHR ''(''" "src ! i \<noteq> cu CHR '')''"
      by blast
    then show ?thesis
    proof cases
      case op
      with "1.prems" lt Fall have "scanP src st' (depth + 1) (i + 1) = Inr c"
        by (subst (asm) scanP.simps) simp
      from "1.IH"(2)[OF lt Fall op this] show ?thesis by simp
    next
      case cl0
      with "1.prems" lt Fall have "c = i"
        by (subst (asm) scanP.simps) simp
      with lt cl0 show ?thesis by simp
    next
      case cl
      with "1.prems" lt Fall have "scanP src st' (depth - 1) (i + 1) = Inr c"
        by (subst (asm) scanP.simps) simp
      from "1.IH"(3)[OF lt Fall cl this] show ?thesis by simp
    next
      case other
      with "1.prems" lt Fall have "scanP src st' depth (i + 1) = Inr c"
        by (subst (asm) scanP.simps) simp
      from "1.IH"(4)[OF lt Fall other this] show ?thesis by simp
    qed
  qed
qed

lemma skipSpace_ge: "e \<le> skipSpace src e"
proof (induction src e rule: skipSpace.induct)
  case (1 src e)
  show ?case
  proof (cases "e < length src \<and> isSpace (src ! e)")
    case True
    with "1.IH" have "e + 1 \<le> skipSpace src (e + 1)" by simp
    moreover from True have "skipSpace src e = skipSpace src (e + 1)"
      by (subst skipSpace.simps) simp
    ultimately show ?thesis by simp
  next
    case False
    then show ?thesis by (subst skipSpace.simps) auto
  qed
qed

lemma skipSpace_le: "e \<le> length src \<Longrightarrow> skipSpace src e \<le> length src"
proof (induction src e rule: skipSpace.induct)
  case (1 src e)
  show ?case
  proof (cases "e < length src \<and> isSpace (src ! e)")
    case True
    with "1.IH" have "skipSpace src (e + 1) \<le> length src" by simp
    moreover from True have "skipSpace src e = skipSpace src (e + 1)"
      by (subst skipSpace.simps) simp
    ultimately show ?thesis by simp
  next
    case False
    with "1.prems" show ?thesis by (subst skipSpace.simps) auto
  qed
qed

lemma length_marker [simp]: "length marker = 4"
  by (simp add: js_def)

lemma length_js_d [simp]: "length (js ''__d'') = 3"
  by (simp add: js_def)

lemma startsWithAt_marker_length: "startsWithAt src marker p \<Longrightarrow> p + 4 \<le> length src"
proof -
  assume "startsWithAt src marker p"
  then have "length (take (length marker) (drop p src)) = 4"
    by (simp add: startsWithAt_def)
  then show ?thesis by simp
qed

lemma extractIter_cursor:
  assumes "iterCursor (extractIter src i) = Some i'"
  shows "i < i' \<and> i' \<le> length src"
proof (cases "findNextDCallStart src i")
  case None
  with assms show ?thesis by (simp add: extractIter_def)
next
  case (Some start)
  then have s: "i \<le> start" "startsWithAt src marker start"
    using scanD_Some[of src lexInit i start] by (simp_all add: findNextDCallStart_def)
  then have len: "start + 4 \<le> length src" by (simp add: startsWithAt_marker_length)
  show ?thesis
  proof (cases "findMatchingParen src (start + 3)")
    case (Inl e)
    with Some assms s len show ?thesis by (simp add: extractIter_def)
  next
    case (Inr c)
    then have c: "start + 3 \<le> c" "c < length src"
      using scanP_Inr[of src lexInit 0 "start + 3" c] by (simp_all add: findMatchingParen_def)
    have "c + 1 \<le> skipSpace src (c + 1)" by (rule skipSpace_ge)
    moreover from c have "skipSpace src (c + 1) \<le> length src" by (simp add: skipSpace_le)
    ultimately show ?thesis
      using Some Inr assms s c by (auto simp: extractIter_def Let_def split: if_splits)
  qed
qed

text \<open>
  The loop of \<open>extractDCalls\<close> from cursor \<open>i\<close>. It returns the strings pushed to \<open>out\<close>
  and the warnings written with \<open>console.error\<close> (the offset and the error of each),
  both in the order of the iterations.
\<close>

function extractFrom :: "jsstring \<Rightarrow> nat \<Rightarrow> jsstring list \<times> (nat \<times> error) list" where
  "extractFrom source i =
     (if i < length source then
        (case extractIter source i of
           Stop \<Rightarrow> ([], [])
         | Pushed start end2 \<Rightarrow>
             (let (out, warnings) = extractFrom source end2
              in (slice source start end2 # out, warnings))
         | Failed start e \<Rightarrow>
             (let (out, warnings) = extractFrom source (start + length marker)
              in (out, (start, e) # warnings)))
      else ([], []))"
  by pat_completeness auto
termination
proof (relation "measure (\<lambda>(src, i). length src - i)")
  show "wf (measure (\<lambda>(src, i). length src - i))" by simp
next
  fix source :: jsstring and i start end2 :: nat
  assume "i < length source" "extractIter source i = Pushed start end2"
  then show "((source, end2), (source, i)) \<in> measure (\<lambda>(src, i). length src - i)"
    using extractIter_cursor[of source i end2] by auto
next
  fix source :: jsstring and i start :: nat and e :: error
  assume "i < length source" "extractIter source i = Failed start e"
  then show "((source, start + length marker), (source, i)) \<in> measure (\<lambda>(src, i). length src - i)"
    using extractIter_cursor[of source i "start + length marker"] by auto
qed

declare extractFrom.simps [simp del]

definition extractDCalls :: "jsstring \<Rightarrow> jsstring list" where
  "extractDCalls source = fst (extractFrom source 0)"

definition extractWarnings :: "jsstring \<Rightarrow> (nat \<times> error) list" where
  "extractWarnings source = snd (extractFrom source 0)"

section \<open>The lexical state along a scan\<close>

text \<open>
  \<open>lexTrace src st i\<close> lists, for a scan that enters the loop at index \<open>i\<close> with
  variables \<open>st\<close> and is never left by a \<open>return\<close>, the index of every iteration together
  with the variables at its start. Indices that an \<open>i++\<close> inside the body jumps over (the
  character after a backslash, the second character of \<open>//\<close>, \<open>/*\<close>, \<open>*/\<close> and \<open>${\<close>) do
  not occur in it.
\<close>

lemma stepNext_gt: "i < stepNext i (lexStep src st i)"
  by (cases "lexStep src st i") (auto dest: lexStep_Continue_ge)

function lexTrace :: "jsstring \<Rightarrow> lex \<Rightarrow> nat \<Rightarrow> (nat \<times> lex) list" where
  "lexTrace src st i =
     (if i < length src
      then (i, st) # lexTrace src (stepState (lexStep src st i)) (stepNext i (lexStep src st i))
      else [])"
  by pat_completeness auto
termination
proof (relation "measure (\<lambda>(src, st, i). length src - i)")
  show "wf (measure (\<lambda>(src, st, i). length src - i))" by simp
next
  fix src :: jsstring and st :: lex and i :: nat
  assume "i < length src"
  then show "((src, stepState (lexStep src st i), stepNext i (lexStep src st i)), (src, st, i))
      \<in> measure (\<lambda>(src, st, i). length src - i)"
    using stepNext_gt[of i src st] by auto
qed

declare lexTrace.simps [simp del]

text \<open>The mode in which the scan started at \<open>fromIdx\<close> reads position \<open>p\<close>; \<open>None\<close> when it
  does not read that position.\<close>

definition lexModeAt :: "jsstring \<Rightarrow> nat \<Rightarrow> nat \<Rightarrow> mode option" where
  "lexModeAt src fromIdx p = map_option mode (map_of (lexTrace src lexInit fromIdx) p)"

lemma lexTrace_bounds: "(p, s) \<in> set (lexTrace src st i) \<Longrightarrow> i \<le> p \<and> p < length src"
proof (induction src st i rule: lexTrace.induct)
  case (1 src st i)
  show ?case
  proof (cases "i < length src")
    case True
    with "1.prems" consider "p = i"
      | "(p, s) \<in> set (lexTrace src (stepState (lexStep src st i)) (stepNext i (lexStep src st i)))"
      by (subst (asm) lexTrace.simps) auto
    then show ?thesis
    proof cases
      case 1
      with True show ?thesis by simp
    next
      case 2
      from "1.IH"[OF True 2] stepNext_gt[of i src st] show ?thesis by simp
    qed
  next
    case False
    with "1.prems" show ?thesis by (subst (asm) lexTrace.simps) simp
  qed
qed

lemma lexStep_Fall_Code: "lexStep src st i = Fall st' \<Longrightarrow> mode st = Code"
  by (auto simp: lexStep_def Let_def split: mode.splits if_splits)

lemma lexStep_Code_underscore:
  "mode st = Code \<Longrightarrow> src ! i = cu CHR ''_'' \<Longrightarrow> lexStep src st i = Fall st"
  by (simp add: lexStep_def)

lemma lexStep_Code_open:
  "mode st = Code \<Longrightarrow> src ! i = cu CHR ''('' \<Longrightarrow> lexStep src st i = Fall st"
  by (simp add: lexStep_def)


lemma startsWithAt_marker_nth:
  assumes "startsWithAt src marker p"
  shows "src ! p = cu CHR ''_''" and "src ! (p + 3) = cu CHR ''(''"
proof -
  from assms have len: "p + 4 \<le> length src" by (rule startsWithAt_marker_length)
  from assms have eq: "take 4 (drop p src) = marker" by (simp add: startsWithAt_def)
  have "src ! p = take 4 (drop p src) ! 0" using len by simp
  also have "\<dots> = cu CHR ''_''" unfolding eq by (simp add: js_def)
  finally show "src ! p = cu CHR ''_''" .
  have "src ! (p + 3) = take 4 (drop p src) ! 3" using len by simp
  also have "\<dots> = cu CHR ''(''" unfolding eq by (simp add: js_def)
  finally show "src ! (p + 3) = cu CHR ''(''" .
qed

text \<open>The locator returns the first position of the trace that is read in mode \<open>Code\<close> and
  carries the marker.\<close>

definition isCall :: "jsstring \<Rightarrow> nat \<times> lex \<Rightarrow> bool" where
  "isCall src e \<longleftrightarrow> mode (snd e) = Code \<and> startsWithAt src marker (fst e)"

lemma scanD_trace:
  "scanD src st i = map_option fst (find (isCall src) (lexTrace src st i))"
proof (induction src st i rule: scanD.induct)
  case (1 src st i)
  show ?case
  proof (cases "i < length src")
    case False
    then show ?thesis
      by (subst scanD.simps, subst lexTrace.simps) simp
  next
    case lt: True
    show ?thesis
    proof (cases "lexStep src st i")
      case (Continue st' i')
      have "\<not> isCall src (i, st)"
        using Continue lexStep_Code_underscore[of st src i] startsWithAt_marker_nth(1)[of src i]
        by (auto simp: isCall_def)
      moreover have "scanD src st i = scanD src st' (i' + 1)"
        using lt Continue by (subst scanD.simps) simp
      ultimately show ?thesis
        using "1.IH"(1)[OF lt Continue] lt Continue
        by (subst lexTrace.simps) simp
    next
      case (Fall st')
      then have code: "mode st = Code" by (rule lexStep_Fall_Code)
      show ?thesis
      proof (cases "src ! i = cu CHR ''_'' \<and> startsWithAt src marker i")
        case True
        then have "isCall src (i, st)" using code by (simp add: isCall_def)
        moreover have "scanD src st i = Some i"
          using lt Fall True by (subst scanD.simps) simp
        ultimately show ?thesis using lt by (subst lexTrace.simps) simp
      next
        case False
        then have "\<not> isCall src (i, st)"
          using startsWithAt_marker_nth(1)[of src i] by (auto simp: isCall_def)
        moreover have "scanD src st i = scanD src st' (i + 1)"
          using lt Fall False by (subst scanD.simps) auto
        ultimately show ?thesis
          using "1.IH"(2)[OF lt Fall False] lt Fall
          by (subst lexTrace.simps) simp
      qed
    qed
  qed
qed

lemma lexTrace_distinct: "distinct (map fst (lexTrace src st i))"
proof (induction src st i rule: lexTrace.induct)
  case (1 src st i)
  show ?case
  proof (cases "i < length src")
    case True
    let ?rest = "lexTrace src (stepState (lexStep src st i)) (stepNext i (lexStep src st i))"
    have "i \<notin> fst ` set ?rest"
      using lexTrace_bounds[of i _ src "stepState (lexStep src st i)"
          "stepNext i (lexStep src st i)"] stepNext_gt[of i src st]
      by force
    with "1.IH"[OF True] True show ?thesis
      by (subst lexTrace.simps) simp
  next
    case False
    then show ?thesis by (subst lexTrace.simps) simp
  qed
qed

lemma locator_reads_code:
  assumes "findNextDCallStart src fromIdx = Some p"
  shows "fromIdx \<le> p \<and> startsWithAt src marker p \<and> lexModeAt src fromIdx p = Some Code"
proof -
  let ?tr = "lexTrace src lexInit fromIdx"
  from assms obtain e where f: "find (isCall src) ?tr = Some e" and p: "fst e = p"
    by (auto simp: findNextDCallStart_def scanD_trace)
  from f have mem: "e \<in> set ?tr" and call: "isCall src e"
    by (auto simp: find_Some_iff)
  from p have "e = (p, snd e)" by (simp add: prod_eq_iff)
  with mem have "(p, snd e) \<in> set ?tr" by simp
  then have "map_of ?tr p = Some (snd e)"
    using lexTrace_distinct[of src lexInit fromIdx] by simp
  then have "lexModeAt src fromIdx p = Some Code"
    using call by (simp add: lexModeAt_def isCall_def)
  moreover from assms have "fromIdx \<le> p" "startsWithAt src marker p"
    using scanD_Some[of src lexInit fromIdx p] by (simp_all add: findNextDCallStart_def)
  ultimately show ?thesis by simp
qed

lemmas lex_eval =
  lexStep_def lexInit_def nextIs_def looksLikeRegexStart_def startsWithAt_def js_def

section \<open>Spans of the extracted calls\<close>

text \<open>The offsets \<open>(start, end)\<close> of the strings that the loop of \<open>extractDCalls\<close> pushes
  from cursor \<open>i\<close> on, in order: the same loop, recording \<open>start\<close> and \<open>end\<close> instead of
  \<open>source.slice(start, end)\<close>.\<close>

function extractSpans :: "jsstring \<Rightarrow> nat \<Rightarrow> (nat \<times> nat) list" where
  "extractSpans source i =
     (if i < length source then
        (case extractIter source i of
           Stop \<Rightarrow> []
         | Pushed start end2 \<Rightarrow> (start, end2) # extractSpans source end2
         | Failed start e \<Rightarrow> extractSpans source (start + length marker))
      else [])"
  by pat_completeness auto
termination
proof (relation "measure (\<lambda>(src, i). length src - i)")
  show "wf (measure (\<lambda>(src, i). length src - i))" by simp
next
  fix source :: jsstring and i start end2 :: nat
  assume "i < length source" "extractIter source i = Pushed start end2"
  then show "((source, end2), (source, i)) \<in> measure (\<lambda>(src, i). length src - i)"
    using extractIter_cursor[of source i end2] by auto
next
  fix source :: jsstring and i start :: nat and e :: error
  assume "i < length source" "extractIter source i = Failed start e"
  then show "((source, start + length marker), (source, i)) \<in> measure (\<lambda>(src, i). length src - i)"
    using extractIter_cursor[of source i "start + length marker"] by auto
qed

declare extractSpans.simps [simp del]

text \<open>The end of the span of a call whose closing parenthesis is at \<open>c\<close>.\<close>

definition spanEnd :: "jsstring \<Rightarrow> nat \<Rightarrow> nat" where
  "spanEnd source c =
     (let end1 = skipSpace source (c + 1)
      in if end1 < length source \<and> source ! end1 = cu CHR '';'' then end1 + 1 else end1)"

lemma extractIter_Stop:
  "extractIter src i = Stop \<longleftrightarrow> findNextDCallStart src i = None"
  by (auto simp: extractIter_def Let_def split: option.splits sum.splits)

lemma extractIter_Pushed:
  assumes "extractIter src i = Pushed s e"
  shows "findNextDCallStart src i = Some s"
    and "\<exists>c. findMatchingParen src (s + 3) = Inr c \<and> e = spanEnd src c"
  using assms by (auto simp: extractIter_def Let_def spanEnd_def split: option.splits sum.splits)

lemma extractIter_Failed:
  assumes "extractIter src i = Failed s err"
  shows "findNextDCallStart src i = Some s" and "findMatchingParen src (s + 3) = Inl err"
  using assms by (auto simp: extractIter_def Let_def split: option.splits sum.splits)

lemma findNextDCallStart_Some:
  "findNextDCallStart src i = Some s \<Longrightarrow> i \<le> s \<and> s + 4 \<le> length src \<and> startsWithAt src marker s"
  using scanD_Some[of src lexInit i s] startsWithAt_marker_length[of src s]
  by (simp add: findNextDCallStart_def)

lemma findMatchingParen_after_open:
  assumes "findMatchingParen src (s + 3) = Inr c" and "startsWithAt src marker s"
  shows "s + 4 \<le> c \<and> c < length src"
proof -
  from assms(1) have c: "s + 3 \<le> c" "c < length src" "src ! c = cu CHR '')''"
    using scanP_Inr[of src lexInit 0 "s + 3" c] by (simp_all add: findMatchingParen_def)
  from assms(2) have "src ! (s + 3) = cu CHR ''(''" by (rule startsWithAt_marker_nth)
  with c have "c \<noteq> s + 3" by auto
  with c show ?thesis by simp
qed

lemma spanEnd_bounds: "c < length src \<Longrightarrow> c < spanEnd src c \<and> spanEnd src c \<le> length src"
  using skipSpace_ge[of "c + 1" src] skipSpace_le[of "c + 1" src]
  by (auto simp: spanEnd_def Let_def)

lemma extractIter_Pushed_bounds:
  assumes "extractIter src i = Pushed s e"
  shows "i \<le> s \<and> s + 4 < e \<and> e \<le> length src \<and> startsWithAt src marker s"
proof -
  from extractIter_Pushed[OF assms] obtain c where
    f: "findNextDCallStart src i = Some s" and m: "findMatchingParen src (s + 3) = Inr c"
    and e: "e = spanEnd src c" by blast
  from f have s: "i \<le> s" "startsWithAt src marker s" by (simp_all add: findNextDCallStart_Some)
  from findMatchingParen_after_open[OF m s(2)] have c: "s + 4 \<le> c" "c < length src" by simp_all
  from spanEnd_bounds[OF c(2)] e c s show ?thesis by simp
qed

lemma extractFrom_spans:
  "fst (extractFrom src i) = map (\<lambda>(s, e). slice src s e) (extractSpans src i)"
proof (induction src i rule: extractSpans.induct)
  case (1 src i)
  show ?case
  proof (cases "i < length src")
    case False
    then show ?thesis by (subst extractFrom.simps, subst extractSpans.simps) simp
  next
    case lt: True
    show ?thesis
    proof (cases "extractIter src i")
      case Stop
      with lt show ?thesis by (subst extractFrom.simps, subst extractSpans.simps) simp
    next
      case (Pushed s e)
      with lt "1.IH"(1)[OF lt Pushed] show ?thesis
        by (subst extractFrom.simps, subst extractSpans.simps) (simp add: case_prod_beta)
    next
      case (Failed s err)
      with lt "1.IH"(2)[OF lt Failed] show ?thesis
        by (subst extractFrom.simps, subst extractSpans.simps) (simp add: case_prod_beta)
    qed
  qed
qed

lemma extractSpans_props:
  "(\<forall>(s, e) \<in> set (extractSpans src i).
      i \<le> s \<and> s + 4 < e \<and> e \<le> length src \<and> startsWithAt src marker s) \<and>
   sorted_wrt (\<lambda>a b. snd a \<le> fst b) (extractSpans src i)"
proof (induction src i rule: extractSpans.induct)
  case (1 src i)
  show ?case
  proof (cases "i < length src")
    case False
    then show ?thesis by (subst extractSpans.simps, subst extractSpans.simps) simp
  next
    case lt: True
    show ?thesis
    proof (cases "extractIter src i")
      case Stop
      with lt show ?thesis by (subst extractSpans.simps, subst extractSpans.simps) simp
    next
      case (Pushed s e)
      from extractIter_Pushed_bounds[OF Pushed]
      have b: "i \<le> s" "s + 4 < e" "e \<le> length src" "startsWithAt src marker s" by simp_all
      have eq: "extractSpans src i = (s, e) # extractSpans src e"
        using lt Pushed by (subst extractSpans.simps) simp
      from "1.IH"(1)[OF lt Pushed] b show ?thesis
        unfolding eq by fastforce
    next
      case (Failed s err)
      from extractIter_Failed(1)[OF Failed] have b: "i \<le> s"
        by (simp add: findNextDCallStart_Some)
      have eq: "extractSpans src i = extractSpans src (s + length marker)"
        using lt Failed by (subst extractSpans.simps) simp
      from "1.IH"(2)[OF lt Failed] b show ?thesis
        unfolding eq by fastforce
    qed
  qed
qed

text \<open>
  C2. The strings returned by \<open>extractDCalls\<close> are the substrings of the input at offsets
  \<open>(start\<^sub>1, end\<^sub>1), (start\<^sub>2, end\<^sub>2), \<dots>\<close> with
  \<open>start\<^sub>1 < end\<^sub>1 \<le> start\<^sub>2 < end\<^sub>2 \<le> \<dots> \<le> length\<close>: they are in source order, do not
  overlap, are copied character for character, and each begins with the marker \<open>__d(\<close>.
\<close>

theorem extractDCalls_ordered_lossless:
  "\<exists>spans.
     extractDCalls src = map (\<lambda>(s, e). slice src s e) spans \<and>
     (\<forall>(s, e) \<in> set spans. s + 4 \<le> e \<and> e \<le> length src \<and> startsWithAt src marker s) \<and>
     sorted_wrt (\<lambda>a b. snd a \<le> fst b) spans"
proof (intro exI conjI)
  show "extractDCalls src = map (\<lambda>(s, e). slice src s e) (extractSpans src 0)"
    by (simp add: extractDCalls_def extractFrom_spans)
  show "\<forall>(s, e) \<in> set (extractSpans src 0).
      s + 4 \<le> e \<and> e \<le> length src \<and> startsWithAt src marker s"
    using extractSpans_props[of src 0] by fastforce
  show "sorted_wrt (\<lambda>a b. snd a \<le> fst b) (extractSpans src 0)"
    using extractSpans_props[of src 0] by simp
qed

lemma ex1_f1: "findNextDCallStart (js ''__d(a);__d(b)'') 0 = Some 0"
  by (simp add: findNextDCallStart_def scanD.simps lex_eval)
lemma ex1_m1: "findMatchingParen (js ''__d(a);__d(b)'') 3 = Inr 5"
  by (simp add: findMatchingParen_def scanP.simps lex_eval)
lemma ex1_k1: "skipSpace (js ''__d(a);__d(b)'') 6 = 6"
  by (simp add: skipSpace.simps isSpace_def js_def)
lemma ex1_f2: "findNextDCallStart (js ''__d(a);__d(b)'') 7 = Some 7"
  by (simp add: findNextDCallStart_def scanD.simps lex_eval)
lemma ex1_m2: "findMatchingParen (js ''__d(a);__d(b)'') 10 = Inr 12"
  by (simp add: findMatchingParen_def scanP.simps lex_eval)
lemma ex1_k2: "skipSpace (js ''__d(a);__d(b)'') 13 = 13"
  by (simp add: skipSpace.simps isSpace_def js_def)
lemma ex1_it1: "extractIter (js ''__d(a);__d(b)'') 0 = Pushed 0 7"
  by (simp add: extractIter_def ex1_f1 ex1_m1 ex1_k1) (simp add: js_def)
lemma ex1_it2: "extractIter (js ''__d(a);__d(b)'') 7 = Pushed 7 13"
  by (simp add: extractIter_def ex1_f2 ex1_m2 ex1_k2) (simp add: js_def)
lemma ex1_from: "extractFrom (js ''__d(a);__d(b)'') 0 = ([js ''__d(a);'', js ''__d(b)''], [])"
  apply (subst extractFrom.simps)
  apply (simp add: ex1_it1)
  apply (subst extractFrom.simps)
  apply (simp add: ex1_it2)
  apply (subst extractFrom.simps)
  apply (simp add: js_def slice_def)
  done

theorem extractDCalls_ordered_lossless_witness:
  "extractDCalls (js ''__d(a);__d(b)'') = [js ''__d(a);'', js ''__d(b)''] \<and>
   (\<exists>spans.
     extractDCalls (js ''__d(a);__d(b)'') = map (\<lambda>(s, e). slice (js ''__d(a);__d(b)'') s e) spans \<and>
     (\<forall>(s, e) \<in> set spans. s + 4 \<le> e \<and> e \<le> length (js ''__d(a);__d(b)'') \<and>
        startsWithAt (js ''__d(a);__d(b)'') marker s) \<and>
     sorted_wrt (\<lambda>a b. snd a \<le> fst b) spans)"
  using extractDCalls_ordered_lossless[of "js ''__d(a);__d(b)''"]
  by (simp add: extractDCalls_def ex1_from)

section \<open>An input with an unterminated call\<close>

text \<open>The example \<open>__d( __d(a)\<close>: the first call is never closed, the second one is.\<close>

lemma ex2_f1: "findNextDCallStart (js ''__d( __d(a)'') 0 = Some 0"
  by (simp add: findNextDCallStart_def scanD.simps lex_eval)
lemma ex2_m1: "findMatchingParen (js ''__d( __d(a)'') 3 = Inl NoMatchingParen"
  by (simp add: findMatchingParen_def scanP.simps lex_eval)
lemma ex2_f2: "findNextDCallStart (js ''__d( __d(a)'') 4 = Some 5"
  by (simp add: findNextDCallStart_def scanD.simps lex_eval)
lemma ex2_m2: "findMatchingParen (js ''__d( __d(a)'') 8 = Inr 10"
  by (simp add: findMatchingParen_def scanP.simps lex_eval)
lemma ex2_k2: "skipSpace (js ''__d( __d(a)'') 11 = 11"
  by (simp add: skipSpace.simps isSpace_def js_def)
lemma ex2_it1: "extractIter (js ''__d( __d(a)'') 0 = Failed 0 NoMatchingParen"
  by (simp add: extractIter_def ex2_f1 ex2_m1)
lemma ex2_it2: "extractIter (js ''__d( __d(a)'') 4 = Pushed 5 11"
  by (simp add: extractIter_def ex2_f2 ex2_m2 ex2_k2) (simp add: js_def)
lemma ex2_from4: "extractFrom (js ''__d( __d(a)'') 4 = ([js ''__d(a)''], [])"
  apply (subst extractFrom.simps)
  apply (simp add: ex2_it2)
  apply (subst extractFrom.simps)
  apply (simp add: js_def slice_def)
  done

section \<open>Termination of the extraction\<close>

text \<open>
  The loop of \<open>extractDCalls\<close> as a while loop that may or may not terminate: the state is
  the cursor \<open>i\<close>, the array \<open>out\<close> and a flag that is set by the \<open>break\<close>. \<open>while_option\<close>
  is \<open>None\<close> for a loop that runs forever.
\<close>

definition extractCond :: "jsstring \<Rightarrow> nat \<times> jsstring list \<times> bool \<Rightarrow> bool" where
  "extractCond source s = (case s of (i, out, stopped) \<Rightarrow> \<not> stopped \<and> i < length source)"

definition extractBody ::
  "jsstring \<Rightarrow> nat \<times> jsstring list \<times> bool \<Rightarrow> nat \<times> jsstring list \<times> bool" where
  "extractBody source s =
     (case s of (i, out, stopped) \<Rightarrow>
        (case extractIter source i of
           Stop \<Rightarrow> (i, out, True)
         | Pushed start end2 \<Rightarrow> (end2, out @ [slice source start end2], False)
         | Failed start e \<Rightarrow> (start + length marker, out, False)))"

definition extractWhile :: "jsstring \<Rightarrow> (nat \<times> jsstring list \<times> bool) option" where
  "extractWhile source = while_option (extractCond source) (extractBody source) (0, [], False)"

lemma extractWhile_from:
  "\<exists>i' stopped. while_option (extractCond src) (extractBody src) (i, out, False)
      = Some (i', out @ fst (extractFrom src i), stopped)"
proof (induction src i arbitrary: out rule: extractFrom.induct)
  case (1 src i)
  show ?case
  proof (cases "i < length src")
    case False
    then show ?thesis
      by (subst while_option_unfold, subst extractFrom.simps) (auto simp: extractCond_def)
  next
    case lt: True
    show ?thesis
    proof (cases "extractIter src i")
      case Stop
      with lt show ?thesis
        by (subst while_option_unfold, subst while_option_unfold, subst extractFrom.simps)
           (auto simp: extractCond_def extractBody_def)
    next
      case (Pushed s e)
      have "extractFrom src i = (slice src s e # fst (extractFrom src e), snd (extractFrom src e))"
        using lt Pushed by (subst extractFrom.simps) (simp add: case_prod_beta)
      moreover have "while_option (extractCond src) (extractBody src) (i, out, False)
          = while_option (extractCond src) (extractBody src) (e, out @ [slice src s e], False)"
        using lt Pushed by (subst while_option_unfold) (simp add: extractCond_def extractBody_def)
      ultimately show ?thesis
        using "1.IH"(1)[OF lt Pushed, of "out @ [slice src s e]"] by simp
    next
      case (Failed s err)
      have "extractFrom src i =
          (fst (extractFrom src (s + length marker)), (s, err) # snd (extractFrom src (s + length marker)))"
        using lt Failed by (subst extractFrom.simps) (simp add: case_prod_beta)
      moreover have "while_option (extractCond src) (extractBody src) (i, out, False)
          = while_option (extractCond src) (extractBody src) (s + length marker, out, False)"
        using lt Failed by (subst while_option_unfold) (simp add: extractCond_def extractBody_def)
      ultimately show ?thesis
        using "1.IH"(2)[OF lt Failed, of out] by simp
    qed
  qed
qed

text \<open>
  C10. Extraction terminates on every input. One step of the character scans of
  \<open>findNextDCallStart\<close> and \<open>findMatchingParen\<close> moves the index forward by at least one;
  an iteration of the loop of \<open>extractDCalls\<close> that does not leave it moves the cursor
  strictly forward and not beyond the end of the input, to the end of the span (which is
  past the marker) on success and to just past the marker on failure; and the loop, run
  as a while loop from cursor \<open>0\<close>, ends with \<open>extractDCalls src\<close> in \<open>out\<close>.
\<close>

theorem extraction_terminates:
  "(\<forall>st i. i < stepNext i (lexStep src st i)) \<and>
   (\<forall>i start end2. extractIter src i = Pushed start end2 \<longrightarrow>
      i \<le> start \<and> start + 4 < end2 \<and> end2 \<le> length src) \<and>
   (\<forall>i start e. extractIter src i = Failed start e \<longrightarrow>
      i < start + 4 \<and> start + 4 \<le> length src) \<and>
   (\<exists>i stopped. extractWhile src = Some (i, extractDCalls src, stopped))"
proof (intro conjI allI impI)
  fix st i
  show "i < stepNext i (lexStep src st i)" by (rule stepNext_gt)
next
  fix i start end2
  assume "extractIter src i = Pushed start end2"
  from extractIter_Pushed_bounds[OF this]
  show "i \<le> start" "start + 4 < end2" "end2 \<le> length src" by simp_all
next
  fix i start e
  assume "extractIter src i = Failed start e"
  from extractIter_Failed(1)[OF this] findNextDCallStart_Some[of src i start]
  show "i < start + 4" "start + 4 \<le> length src" by simp_all
next
  show "\<exists>i stopped. extractWhile src = Some (i, extractDCalls src, stopped)"
    using extractWhile_from[of src 0 "[]"] by (simp add: extractWhile_def extractDCalls_def)
qed

theorem extraction_terminates_witness:
  "extractIter (js ''__d( __d(a)'') 0 = Failed 0 NoMatchingParen \<and>
   extractIter (js ''__d( __d(a)'') 4 = Pushed 5 11 \<and>
   (0::nat) < 0 + 4 \<and> 0 + 4 \<le> length (js ''__d( __d(a)'') \<and>
   (4::nat) \<le> 5 \<and> (5::nat) + 4 < 11 \<and> 11 \<le> length (js ''__d( __d(a)'') \<and>
   (\<exists>i stopped. extractWhile (js ''__d( __d(a)'') = Some (i, [js ''__d(a)''], stopped))"
proof -
  have d: "extractDCalls (js ''__d( __d(a)'') = [js ''__d(a)'']"
    apply (simp add: extractDCalls_def)
    apply (subst extractFrom.simps)
    apply (simp add: ex2_it1 ex2_from4)
    apply (simp add: js_def)
    done
  from extraction_terminates[of "js ''__d( __d(a)''"] ex2_it1 ex2_it2 d
  show ?thesis by (simp add: js_def)
qed

section \<open>The extent of a call\<close>







lemma lexTrace_sorted: "sorted_wrt (<) (map fst (lexTrace src st i))"
proof (induction src st i rule: lexTrace.induct)
  case (1 src st i)
  show ?case
  proof (cases "i < length src")
    case True
    let ?rest = "lexTrace src (stepState (lexStep src st i)) (stepNext i (lexStep src st i))"
    have "\<forall>e \<in> set ?rest. i < fst e"
      using lexTrace_bounds[of _ _ src "stepState (lexStep src st i)"
          "stepNext i (lexStep src st i)"] stepNext_gt[of i src st]
      by force
    with "1.IH"[OF True] True show ?thesis
      by (subst lexTrace.simps) simp
  next
    case False
    then show ?thesis by (subst lexTrace.simps) simp
  qed
qed






















section \<open>Scans that start inside the input\<close>

text \<open>
  A scan that starts where an earlier scan was in the same state sees what the earlier
  scan saw from there on. In particular, when the scan from the start of the input reads
  the position \<open>fromIdx\<close> in the initial state, the modes of the scan from \<open>fromIdx\<close> are
  those of the scan from the start.
\<close>

lemma lexTrace_suffix:
  "(p, st') \<in> set (lexTrace src st i) \<Longrightarrow> \<exists>pre. lexTrace src st i = pre @ lexTrace src st' p"
proof (induction src st i rule: lexTrace.induct)
  case (1 src st i)
  show ?case
  proof (cases "i < length src")
    case False
    with "1.prems" show ?thesis by (subst (asm) lexTrace.simps) simp
  next
    case lt: True
    let ?rest = "lexTrace src (stepState (lexStep src st i)) (stepNext i (lexStep src st i))"
    have unf: "lexTrace src st i = (i, st) # ?rest"
      using lt by (subst lexTrace.simps) simp
    from "1.prems" consider "(p, st') = (i, st)" | "(p, st') \<in> set ?rest"
      unfolding unf by auto
    then show ?thesis
    proof cases
      case 1
      then have "lexTrace src st i = [] @ lexTrace src st' p" by simp
      then show ?thesis by blast
    next
      case 2
      from "1.IH"[OF lt 2] obtain pre where "?rest = pre @ lexTrace src st' p" by blast
      then have "lexTrace src st i = ((i, st) # pre) @ lexTrace src st' p" unfolding unf by simp
      then show ?thesis by blast
    qed
  qed
qed

lemma lexModeAt_restart:
  assumes "map_of (lexTrace src lexInit 0) fromIdx = Some lexInit" and "fromIdx \<le> p"
  shows "lexModeAt src fromIdx p = lexModeAt src 0 p"
proof -
  from assms(1) have "(fromIdx, lexInit) \<in> set (lexTrace src lexInit 0)" by (rule map_of_SomeD)
  from lexTrace_suffix[OF this] obtain pre where
    eq: "lexTrace src lexInit 0 = pre @ lexTrace src lexInit fromIdx" by blast
  show ?thesis
  proof (cases "fromIdx < length src")
    case False
    then have "lexTrace src lexInit fromIdx = []" by (subst lexTrace.simps) simp
    moreover have "map_of (lexTrace src lexInit 0) p = None"
    proof (rule ccontr)
      assume "map_of (lexTrace src lexInit 0) p \<noteq> None"
      then obtain s where "(p, s) \<in> set (lexTrace src lexInit 0)"
        by (auto dest: map_of_SomeD)
      from lexTrace_bounds[OF this] False assms(2) show False by simp
    qed
    ultimately show ?thesis by (simp add: lexModeAt_def)
  next
    case True
    then have hd: "lexTrace src lexInit fromIdx
        = (fromIdx, lexInit) # lexTrace src (stepState (lexStep src lexInit fromIdx))
            (stepNext fromIdx (lexStep src lexInit fromIdx))"
      by (subst lexTrace.simps) simp
    have "sorted_wrt (<) (map fst (pre @ lexTrace src lexInit fromIdx))"
      using lexTrace_sorted[of src lexInit 0] unfolding eq .
    then have "\<forall>x \<in> set pre. fst x < fromIdx"
      unfolding hd by (auto simp: sorted_wrt_append)
    with assms(2) have "p \<notin> fst ` set pre" by auto
    then have "map_of pre p = None" by (simp add: map_of_eq_None_iff)
    then have "map_of (lexTrace src lexInit 0) p = map_of (lexTrace src lexInit fromIdx) p"
      unfolding eq by (simp add: map_add_def)
    then show ?thesis by (simp add: lexModeAt_def)
  qed
qed

lemma findNextDCallStart_from_code_position:
  assumes "map_of (lexTrace src lexInit 0) fromIdx = Some lexInit"
    and "findNextDCallStart src fromIdx = Some p"
  shows "lexModeAt src 0 p = Some Code"
proof -
  from locator_reads_code[OF assms(2)]
  have p: "fromIdx \<le> p" "lexModeAt src fromIdx p = Some Code" by simp_all
  with lexModeAt_restart[OF assms(1) p(1)] show ?thesis by simp
qed

text \<open>The example: a template literal with the text \<open>${__d(a)}__d(b)\<close>.\<close>

definition templateExample :: jsstring where
  "templateExample = [96] @ js ''${__d(a)}__d(b)'' @ [96]"

lemma ex4_f1: "findNextDCallStart templateExample 0 = Some 3"
  by (simp add: templateExample_def findNextDCallStart_def scanD.simps lex_eval)
lemma ex4_m1: "findMatchingParen templateExample 6 = Inr 8"
  by (simp add: templateExample_def findMatchingParen_def scanP.simps lex_eval)
lemma ex4_k1: "skipSpace templateExample 9 = 9"
  by (simp add: templateExample_def skipSpace.simps isSpace_def js_def)
lemma ex4_f2: "findNextDCallStart templateExample 9 = Some 10"
  by (simp add: templateExample_def findNextDCallStart_def scanD.simps lex_eval)
lemma ex4_m2: "findMatchingParen templateExample 13 = Inr 15"
  by (simp add: templateExample_def findMatchingParen_def scanP.simps lex_eval)
lemma ex4_k2: "skipSpace templateExample 16 = 16"
  by (simp add: templateExample_def skipSpace.simps isSpace_def js_def)
lemma ex4_f3: "findNextDCallStart templateExample 16 = None"
  by (simp add: templateExample_def findNextDCallStart_def scanD.simps lex_eval)
lemma ex4_it1: "extractIter templateExample 0 = Pushed 3 9"
  by (simp add: extractIter_def ex4_f1 ex4_m1 ex4_k1) (simp add: templateExample_def js_def)
lemma ex4_it2: "extractIter templateExample 9 = Pushed 10 16"
  by (simp add: extractIter_def ex4_f2 ex4_m2 ex4_k2) (simp add: templateExample_def js_def)
lemma ex4_it3: "extractIter templateExample 16 = Stop"
  by (simp add: extractIter_def ex4_f3)

text \<open>
  C1, as stated, fails. \<open>extractDCalls\<close> starts every scan in the initial state, wherever
  the cursor is. After the call inside the interpolation of the template literal of the
  example the cursor, at offset 9, is still inside the template; the locator started
  there returns offset 10, the marker of \<open>__d(b)\<close>, which lies in the text of the template
  literal: the scan from the start of the input reads it in mode \<open>Template\<close>. Both
  strings are extracted.
\<close>

theorem locator_returns_marker_in_template:
  "extractDCalls templateExample = [js ''__d(a)'', js ''__d(b)''] \<and>
   findNextDCallStart templateExample 9 = Some 10 \<and>
   lexModeAt templateExample 9 10 = Some Code \<and>
   lexModeAt templateExample 0 10 = Some Template"
proof -
  have len: "length templateExample = 17" by (simp add: templateExample_def js_def)
  have "extractFrom templateExample 0 = ([js ''__d(a)'', js ''__d(b)''], [])"
    apply (subst extractFrom.simps)
    apply (simp add: ex4_it1 len)
    apply (subst extractFrom.simps)
    apply (simp add: ex4_it2 len)
    apply (subst extractFrom.simps)
    apply (simp add: ex4_it3 len)
    apply (simp add: templateExample_def js_def slice_def)
    done
  moreover have "lexModeAt templateExample 9 10 = Some Code"
    by (simp add: templateExample_def lexModeAt_def lexTrace.simps lex_eval)
  moreover have "lexModeAt templateExample 0 10 = Some Template"
    by (simp add: templateExample_def lexModeAt_def lexTrace.simps lex_eval)
  ultimately show ?thesis using ex4_f2 by (simp add: extractDCalls_def)
qed

text \<open>
  C1, amended. Whatever the input and the starting offset, an offset returned by
  \<open>findNextDCallStart\<close> is not before the starting offset, carries the marker \<open>__d(\<close>, and
  is read in mode \<open>Code\<close> by the scan itself, which starts in the initial state at the
  starting offset: it is neither a position this scan reads inside a single- or
  double-quoted string, a template literal, a regular expression, a line comment or a
  block comment, nor a position it jumps over. When the starting offset is a position
  that the scan from the start of the input reads in the initial state, the returned
  offset is read in mode \<open>Code\<close> by that scan too.
\<close>

theorem findNextDCallStart_only_in_code:
  assumes "findNextDCallStart src fromIdx = Some p"
  shows "fromIdx \<le> p \<and> startsWithAt src marker p \<and> lexModeAt src fromIdx p = Some Code \<and>
         (map_of (lexTrace src lexInit 0) fromIdx = Some lexInit \<longrightarrow>
            lexModeAt src 0 p = Some Code)"
  using locator_reads_code[OF assms] findNextDCallStart_from_code_position[OF _ assms]
  by blast

theorem findNextDCallStart_only_in_code_witness:
  "findNextDCallStart (js ''f(1);/*__d(*/__d('') 5 = Some 13 \<and>
   startsWithAt (js ''f(1);/*__d(*/__d('') marker 13 \<and>
   lexModeAt (js ''f(1);/*__d(*/__d('') 5 13 = Some Code \<and>
   lexModeAt (js ''f(1);/*__d(*/__d('') 5 7 = Some BlockComment \<and>
   map_of (lexTrace (js ''f(1);/*__d(*/__d('') lexInit 0) 5 = Some lexInit \<and>
   lexModeAt (js ''f(1);/*__d(*/__d('') 0 13 = Some Code"
proof -
  have h: "findNextDCallStart (js ''f(1);/*__d(*/__d('') 5 = Some 13"
    by (simp add: findNextDCallStart_def scanD.simps lex_eval)
  have c: "lexModeAt (js ''f(1);/*__d(*/__d('') 5 7 = Some BlockComment"
    by (simp add: lexModeAt_def lexTrace.simps lex_eval)
  have i: "map_of (lexTrace (js ''f(1);/*__d(*/__d('') lexInit 0) 5 = Some lexInit"
    by (simp add: lexTrace.simps lex_eval)
  from findNextDCallStart_only_in_code[OF h] h c i show ?thesis by simp
qed

section \<open>Recovery from an unterminated call\<close>

lemma lexStep_Code_d:
  "mode st = Code \<Longrightarrow> src ! i = cu CHR ''d'' \<Longrightarrow> lexStep src st i = Fall st"
  by (simp add: lexStep_def)

lemma startsWithAt_marker_mid:
  assumes "startsWithAt src marker p"
  shows "src ! (p + 1) = cu CHR ''_''" and "src ! (p + 2) = cu CHR ''d''"
proof -
  from assms have len: "p + 4 \<le> length src" by (rule startsWithAt_marker_length)
  from assms have eq: "take 4 (drop p src) = marker" by (simp add: startsWithAt_def)
  have "src ! (p + 1) = take 4 (drop p src) ! 1" using len by simp
  also have "\<dots> = cu CHR ''_''" unfolding eq by (simp add: js_def)
  finally show "src ! (p + 1) = cu CHR ''_''" .
  have "src ! (p + 2) = take 4 (drop p src) ! 2" using len by simp
  also have "\<dots> = cu CHR ''d''" unfolding eq by (simp add: js_def)
  finally show "src ! (p + 2) = cu CHR ''d''" .
qed

text \<open>The four characters of a marker read in mode \<open>Code\<close> leave the scanner variables as
  they are.\<close>

lemma lexTrace_marker:
  assumes code: "mode st = Code" and m: "startsWithAt src marker p"
  shows "lexTrace src st p =
           [(p, st), (p + 1, st), (p + 2, st), (p + 3, st)] @ lexTrace src st (p + 4)"
proof -
  from m have len: "p + 4 \<le> length src" by (rule startsWithAt_marker_length)
  have s0: "lexStep src st p = Fall st"
    using code startsWithAt_marker_nth(1)[OF m] by (rule lexStep_Code_underscore)
  have s1: "lexStep src st (p + 1) = Fall st"
    using code startsWithAt_marker_mid(1)[OF m] by (rule lexStep_Code_underscore)
  have s2: "lexStep src st (p + 2) = Fall st"
    using code startsWithAt_marker_mid(2)[OF m] by (rule lexStep_Code_d)
  have s3: "lexStep src st (p + 3) = Fall st"
    using code startsWithAt_marker_nth(2)[OF m] by (rule lexStep_Code_open)
  have t0: "lexTrace src st p = (p, st) # lexTrace src st (p + 1)"
    using len s0 by (subst lexTrace.simps) simp
  have t1: "lexTrace src st (p + 1) = (p + 1, st) # lexTrace src st (p + 2)"
    using len s1 by (subst lexTrace.simps) (simp add: numeral_2_eq_2)
  have t2: "lexTrace src st (p + 2) = (p + 2, st) # lexTrace src st (p + 3)"
    using len s2 by (subst lexTrace.simps) (simp add: numeral_3_eq_3 numeral_2_eq_2)
  have t3: "lexTrace src st (p + 3) = (p + 3, st) # lexTrace src st (p + 4)"
    using len s3 by (subst lexTrace.simps) (simp add: numeral_3_eq_3 eval_nat_numeral)
  show ?thesis unfolding t0 t1 t2 t3 by simp
qed

text \<open>When the scan from the start of the input reads a marker at \<open>p\<close> in the initial
  state, it reads every position from \<open>p + 4\<close> on as the scan that starts at \<open>p + 4\<close>
  does.\<close>

lemma lexTrace_after_marker:
  assumes st: "map_of (lexTrace src lexInit 0) p = Some lexInit"
    and m: "startsWithAt src marker p" and q: "p + 4 \<le> q"
  shows "map_of (lexTrace src lexInit 0) q = map_of (lexTrace src lexInit (p + 4)) q"
proof -
  from st have "(p, lexInit) \<in> set (lexTrace src lexInit 0)" by (rule map_of_SomeD)
  from lexTrace_suffix[OF this] obtain pre where
    eq: "lexTrace src lexInit 0 = pre @ lexTrace src lexInit p" by blast
  have code0: "mode lexInit = Code" by (simp add: lexInit_def)
  let ?four = "[(p, lexInit), (p + 1, lexInit), (p + 2, lexInit), (p + 3, lexInit)]"
  have eq': "lexTrace src lexInit 0 = (pre @ ?four) @ lexTrace src lexInit (p + 4)"
    unfolding eq lexTrace_marker[OF code0 m] by simp
  have "sorted_wrt (<) (map fst (pre @ lexTrace src lexInit p))"
    using lexTrace_sorted[of src lexInit 0] unfolding eq .
  then have "\<forall>x \<in> set pre. fst x < p"
    unfolding lexTrace_marker[OF code0 m] by (auto simp: sorted_wrt_append)
  with q have "q \<notin> fst ` set (pre @ ?four)" by auto
  then have none: "map_of (pre @ ?four) q = None" unfolding map_of_eq_None_iff .
  have "map_of ((pre @ ?four) @ lexTrace src lexInit (p + 4)) q
      = (map_of (lexTrace src lexInit (p + 4)) ++ map_of (pre @ ?four)) q"
    by (simp only: map_of_append)
  also have "\<dots> = map_of (lexTrace src lexInit (p + 4)) q"
    by (simp only: map_add_def none option.simps)
  finally show ?thesis unfolding eq' .
qed

text \<open>The locator returns a marker that its scan reads in mode \<open>Code\<close> when no earlier
  position of the scan is one.\<close>

lemma locator_finds_first:
  assumes mem: "(q, st) \<in> set (lexTrace src lexInit j)"
    and call: "mode st = Code" "startsWithAt src marker q"
    and first: "\<And>q' st'. (q', st') \<in> set (lexTrace src lexInit j) \<Longrightarrow> q' < q \<Longrightarrow>
        \<not> isCall src (q', st')"
  shows "findNextDCallStart src j = Some q"
proof -
  let ?tr = "lexTrace src lexInit j"
  from mem obtain k where k: "k < length ?tr" "?tr ! k = (q, st)"
    by (auto simp: in_set_conv_nth)
  have srt: "sorted_wrt (<) (map fst ?tr)" by (rule lexTrace_sorted)
  have before: "\<not> isCall src (?tr ! n)" if n: "n < k" for n
  proof -
    from n k(1) have "map fst ?tr ! n < map fst ?tr ! k"
      using srt by (simp add: sorted_wrt_iff_nth_less)
    with n k have lt: "fst (?tr ! n) < q" by simp
    from n k(1) have "?tr ! n \<in> set ?tr" by simp
    then have "(fst (?tr ! n), snd (?tr ! n)) \<in> set ?tr" by simp
    from first[OF this lt] show ?thesis by simp
  qed
  have "isCall src (?tr ! k)" using k(2) call by (simp add: isCall_def)
  with k before have "find (isCall src) ?tr = Some (q, st)"
    unfolding find_Some_iff by auto
  then show ?thesis by (simp add: findNextDCallStart_def scanD_trace)
qed

lemma locator_after_skip:
  assumes st: "map_of (lexTrace src lexInit 0) start = Some lexInit"
    and m: "startsWithAt src marker start"
    and q: "start + 4 \<le> q" "startsWithAt src marker q" "lexModeAt src 0 q = Some Code"
    and first: "\<forall>q'. start + 4 \<le> q' \<and> q' < q \<longrightarrow>
        \<not> (startsWithAt src marker q' \<and> lexModeAt src 0 q' = Some Code)"
  shows "findNextDCallStart src (start + 4) = Some q"
proof -
  let ?t0 = "lexTrace src lexInit 0"
  let ?tj = "lexTrace src lexInit (start + 4)"
  from q(3) obtain s where s: "map_of ?t0 q = Some s" "mode s = Code"
    by (auto simp: lexModeAt_def)
  from s(1) lexTrace_after_marker[OF st m q(1)] have "map_of ?tj q = Some s" by simp
  then have mem: "(q, s) \<in> set ?tj" by (rule map_of_SomeD)
  show ?thesis
  proof (rule locator_finds_first[OF mem s(2) q(2)])
    fix q' st'
    assume a: "(q', st') \<in> set ?tj" and lt: "q' < q"
    from lexTrace_bounds[OF a] have ge: "start + 4 \<le> q'" by simp
    from a have "map_of ?tj q' = Some st'"
      using lexTrace_distinct[of src lexInit "start + 4"] by simp
    with lexTrace_after_marker[OF st m ge] have "map_of ?t0 q' = Some st'" by simp
    then have "lexModeAt src 0 q' = Some (mode st')" by (simp add: lexModeAt_def)
    with first ge lt show "\<not> isCall src (q', st')" by (auto simp: isCall_def)
  qed
qed

lemma next_call_extracted:
  assumes f: "findNextDCallStart src j = Some s" and c: "findMatchingParen src (s + 3) = Inr c"
  shows "slice src s (spanEnd src c) \<in> set (fst (extractFrom src j))"
proof -
  from findNextDCallStart_Some[OF f] have lt: "j < length src" by simp
  have it: "extractIter src j = Pushed s (spanEnd src c)"
    using f c by (simp add: extractIter_def spanEnd_def Let_def)
  have "extractFrom src j =
      (slice src s (spanEnd src c) # fst (extractFrom src (spanEnd src c)),
       snd (extractFrom src (spanEnd src c)))"
    using lt it by (subst extractFrom.simps) (simp add: case_prod_beta)
  then show ?thesis by simp
qed

text \<open>The example: a template literal with the text \<open>${__d( }\<close>, followed by a blank and
  the call \<open>__d(a)\<close>.\<close>

definition lostCallExample :: jsstring where
  "lostCallExample = [96] @ js ''${__d( }'' @ [96] @ js '' __d(a)''"

lemma ex8_f1: "findNextDCallStart lostCallExample 0 = Some 3"
  by (simp add: lostCallExample_def findNextDCallStart_def scanD.simps lex_eval)
lemma ex8_m1: "findMatchingParen lostCallExample 6 = Inl NoMatchingParen"
  by (simp add: lostCallExample_def findMatchingParen_def scanP.simps lex_eval)
lemma ex8_f2: "findNextDCallStart lostCallExample 7 = None"
  by (simp add: lostCallExample_def findNextDCallStart_def scanD.simps lex_eval)
lemma ex8_m2: "findMatchingParen lostCallExample 14 = Inr 16"
  by (simp add: lostCallExample_def findMatchingParen_def scanP.simps lex_eval)
lemma ex8_it1: "extractIter lostCallExample 0 = Failed 3 NoMatchingParen"
  by (simp add: extractIter_def ex8_f1 ex8_m1)
lemma ex8_it2: "extractIter lostCallExample 7 = Stop"
  by (simp add: extractIter_def ex8_f2)
lemma ex8_from: "extractFrom lostCallExample 0 = ([], [(3, NoMatchingParen)])"
proof -
  have len: "length lostCallExample = 17" by (simp add: lostCallExample_def js_def)
  show ?thesis
    apply (subst extractFrom.simps)
    apply (simp add: ex8_it1 len)
    apply (subst extractFrom.simps)
    apply (simp add: ex8_it2 len)
    done
qed

text \<open>
  C8, as stated, fails. In the example the first marker, at offset 3, stands in the
  interpolation of a template literal and its call is never closed: the scan of
  \<open>findMatchingParen\<close>, which starts in the initial state, takes the backquote that ends the
  template literal for the start of one and runs to the end of the input. A warning is
  written and the loop goes on at offset 7, again in the initial state: the backquote at
  offset 9 now opens a template literal for the locator, and the call \<open>__d(a)\<close> at offset
  11 is read as text of it. That call is complete and, for the scan from the start of the
  input, stands in code; it is not extracted.
\<close>

theorem later_call_lost_after_skip:
  "extractIter lostCallExample 0 = Failed 3 NoMatchingParen \<and>
   startsWithAt lostCallExample marker 11 \<and>
   lexModeAt lostCallExample 0 11 = Some Code \<and>
   findMatchingParen lostCallExample 14 = Inr 16 \<and>
   slice lostCallExample 11 17 = js ''__d(a)'' \<and>
   lexModeAt lostCallExample 7 11 = Some Template \<and>
   extractDCalls lostCallExample = [] \<and>
   extractWarnings lostCallExample = [(3, NoMatchingParen)]"
proof -
  have "startsWithAt lostCallExample marker 11"
    by (simp add: lostCallExample_def startsWithAt_def js_def)
  moreover have "lexModeAt lostCallExample 0 11 = Some Code"
    by (simp add: lostCallExample_def lexModeAt_def lexTrace.simps lex_eval)
  moreover have "lexModeAt lostCallExample 7 11 = Some Template"
    by (simp add: lostCallExample_def lexModeAt_def lexTrace.simps lex_eval)
  moreover have "slice lostCallExample 11 17 = js ''__d(a)''"
    by (simp add: lostCallExample_def slice_def js_def)
  ultimately show ?thesis
    using ex8_it1 ex8_m2 ex8_from by (simp add: extractDCalls_def extractWarnings_def)
qed

text \<open>
  C8, amended. When the iteration at cursor \<open>i\<close> locates a call at \<open>start\<close> whose extent
  cannot be computed, the only error is that of \<open>findMatchingParen\<close> running off the end of
  the input; the loop writes one warning for \<open>start\<close> and goes on with the cursor just
  past the marker, at \<open>start + 4\<close>, with the scanner in its initial state. The loop does
  not abort: it ends, and what it returns from cursor \<open>i\<close> is what it returns from cursor
  \<open>start + 4\<close>. So the call that the locator finds next from there is extracted whenever
  its extent can be computed, and so on from the end of that call. When the scan from
  the start of the input reads the skipped marker in the initial state, the call found
  next is the first marker at or after \<open>start + 4\<close> that this scan reads in mode \<open>Code\<close>.
  (Otherwise the restart can change the lexical context of what follows, and later calls
  can be lost.)
\<close>

theorem extractDCalls_skips_unterminated:
  assumes "i < length src" and "extractIter src i = Failed start e"
  shows "e = NoMatchingParen \<and>
         findMatchingParen src (start + 3) = Inl NoMatchingParen \<and>
         startsWithAt src marker start \<and>
         fst (extractFrom src i) = fst (extractFrom src (start + 4)) \<and>
         snd (extractFrom src i) = (start, NoMatchingParen) # snd (extractFrom src (start + 4)) \<and>
         (\<forall>out. \<exists>i' stopped.
            while_option (extractCond src) (extractBody src) (i, out, False)
              = Some (i', out @ fst (extractFrom src (start + 4)), stopped)) \<and>
         (\<forall>s c. findNextDCallStart src (start + 4) = Some s \<and>
                findMatchingParen src (s + 3) = Inr c \<longrightarrow>
                slice src s (spanEnd src c) \<in> set (fst (extractFrom src i))) \<and>
         (map_of (lexTrace src lexInit 0) start = Some lexInit \<longrightarrow>
            (\<forall>q. start + 4 \<le> q \<and> startsWithAt src marker q \<and> lexModeAt src 0 q = Some Code \<and>
                 (\<forall>q'. start + 4 \<le> q' \<and> q' < q \<longrightarrow>
                    \<not> (startsWithAt src marker q' \<and> lexModeAt src 0 q' = Some Code)) \<longrightarrow>
                 findNextDCallStart src (start + 4) = Some q))"
proof -
  have e: "e = NoMatchingParen" by (cases e) simp
  from extractIter_Failed[OF assms(2)] have
    f: "findNextDCallStart src i = Some start" and p: "findMatchingParen src (start + 3) = Inl e"
    by simp_all
  from f have m: "startsWithAt src marker start" by (simp add: findNextDCallStart_Some)
  have unf: "extractFrom src i =
      (fst (extractFrom src (start + 4)), (start, e) # snd (extractFrom src (start + 4)))"
    using assms by (subst extractFrom.simps) (simp add: case_prod_beta)
  have w: "\<exists>i' stopped.
            while_option (extractCond src) (extractBody src) (i, out, False)
              = Some (i', out @ fst (extractFrom src (start + 4)), stopped)" for out
    using extractWhile_from[of src i out] unf by simp
  have nxt: "slice src s (spanEnd src c) \<in> set (fst (extractFrom src i))"
    if "findNextDCallStart src (start + 4) = Some s" "findMatchingParen src (s + 3) = Inr c"
    for s c
    using next_call_extracted[OF that] unf by simp
  have loc: "findNextDCallStart src (start + 4) = Some q"
    if "map_of (lexTrace src lexInit 0) start = Some lexInit"
      "start + 4 \<le> q" "startsWithAt src marker q" "lexModeAt src 0 q = Some Code"
      "\<forall>q'. start + 4 \<le> q' \<and> q' < q \<longrightarrow>
          \<not> (startsWithAt src marker q' \<and> lexModeAt src 0 q' = Some Code)"
    for q
    using locator_after_skip[OF that(1) m that(2-5)] .
  from e p m unf w nxt loc show ?thesis by (simp only: fst_conv snd_conv) blast
qed

theorem extractDCalls_skips_unterminated_witness:
  "0 < length (js ''__d( __d(a)'') \<and>
   extractIter (js ''__d( __d(a)'') 0 = Failed 0 NoMatchingParen \<and>
   findNextDCallStart (js ''__d( __d(a)'') (0 + 4) = Some 5 \<and>
   findMatchingParen (js ''__d( __d(a)'') (5 + 3) = Inr 10 \<and>
   map_of (lexTrace (js ''__d( __d(a)'') lexInit 0) 0 = Some lexInit \<and>
   startsWithAt (js ''__d( __d(a)'') marker 5 \<and>
   lexModeAt (js ''__d( __d(a)'') 0 5 = Some Code \<and>
   \<not> startsWithAt (js ''__d( __d(a)'') marker 4 \<and>
   slice (js ''__d( __d(a)'') 5 (spanEnd (js ''__d( __d(a)'') 10) = js ''__d(a)'' \<and>
   js ''__d(a)'' \<in> set (extractDCalls (js ''__d( __d(a)'')) \<and>
   extractDCalls (js ''__d( __d(a)'') = [js ''__d(a)''] \<and>
   extractWarnings (js ''__d( __d(a)'') = [(0, NoMatchingParen)] \<and>
   (\<exists>i' stopped. extractWhile (js ''__d( __d(a)'') = Some (i', [js ''__d(a)''], stopped))"
proof -
  let ?src = "js ''__d( __d(a)''"
  have lt: "0 < length ?src" by (simp add: js_def)
  have st: "map_of (lexTrace ?src lexInit 0) 0 = Some lexInit"
    by (subst lexTrace.simps) (simp add: js_def)
  have mk: "startsWithAt ?src marker 5" "\<not> startsWithAt ?src marker 4"
    by (simp_all add: startsWithAt_def js_def)
  have md: "lexModeAt ?src 0 5 = Some Code"
    by (simp add: lexModeAt_def lexTrace.simps lex_eval)
  have sp: "spanEnd ?src 10 = 11" by (simp add: spanEnd_def ex2_k2) (simp add: js_def)
  have sl: "slice ?src 5 11 = js ''__d(a)''" by (simp add: slice_def js_def)
  note T = extractDCalls_skips_unterminated[OF lt ex2_it1]
  note T4 = T[THEN conjunct2, THEN conjunct2, THEN conjunct2]
  note T5 = T4[THEN conjunct2]
  note T6 = T5[THEN conjunct2]
  note T7 = T6[THEN conjunct2]
  have a: "fst (extractFrom ?src 0) = fst (extractFrom ?src 4)"
    using T4[THEN conjunct1] by simp
  have b: "snd (extractFrom ?src 0) = (0, NoMatchingParen) # snd (extractFrom ?src 4)"
    using T5[THEN conjunct1] by simp
  have w: "\<exists>i' stopped. while_option (extractCond ?src) (extractBody ?src) (0, [], False)
              = Some (i', fst (extractFrom ?src 4), stopped)"
    using T6[THEN conjunct1, THEN spec[where x = "[]"]] by simp
  have n: "slice ?src 5 (spanEnd ?src 10) \<in> set (fst (extractFrom ?src 0))"
    using T7[THEN conjunct1, THEN spec[where x = 5], THEN spec[where x = 10]] ex2_f2 ex2_m2
    by simp
  have first: "\<forall>q'. 4 \<le> q' \<and> q' < 5 \<longrightarrow>
      \<not> (startsWithAt ?src marker q' \<and> lexModeAt ?src 0 q' = Some Code)"
  proof (intro allI impI)
    fix q' :: nat
    assume "4 \<le> q' \<and> q' < 5"
    then have "q' = 4" by simp
    with mk(2) show "\<not> (startsWithAt ?src marker q' \<and> lexModeAt ?src 0 q' = Some Code)"
      by simp
  qed
  have l: "findNextDCallStart ?src 4 = Some 5"
    using T7[THEN conjunct2, THEN mp, OF st, THEN spec[where x = 5]] mk(1) md first by simp
  from a b ex2_from4 have calls: "extractDCalls ?src = [js ''__d(a)'']"
    and warn: "extractWarnings ?src = [(0, NoMatchingParen)]"
    by (simp_all add: extractDCalls_def extractWarnings_def)
  from w ex2_from4 have wh: "\<exists>i' stopped. extractWhile ?src = Some (i', [js ''__d(a)''], stopped)"
    by (simp add: extractWhile_def)
  from n sp sl calls have inx: "js ''__d(a)'' \<in> set (extractDCalls ?src)" by simp
  from lt ex2_it1 l ex2_m2 st mk md sp sl inx calls warn wh show ?thesis by simp
qed

section \<open>Naming and grouping\<close>

text \<open>
  Three things the export code calls are not code of the repository and are taken as
  parameters: the collation \<open>String.prototype.localeCompare\<close> of the host, the first ten
  hexadecimal digits of the SHA-1 digest of a string, and the minifier behind
  \<open>maybeToIA(code, true)\<close>.
\<close>

record env =
  localeCompare :: "jsstring \<Rightarrow> jsstring \<Rightarrow> int"
  sha1Hex10 :: "jsstring \<Rightarrow> jsstring"
  toIaText :: "jsstring \<Rightarrow> jsstring"

text \<open>\<open>s.startsWith(p)\<close>, \<open>s.trim()\<close>, the decimal digits of a non-negative integer and
  \<open>s.lastIndexOf(c)\<close> (\<open>None\<close> for \<open>-1\<close>).\<close>

definition startsWith :: "jsstring \<Rightarrow> jsstring \<Rightarrow> bool" where
  "startsWith s p \<longleftrightarrow> take (length p) s = p"

definition trim :: "jsstring \<Rightarrow> jsstring" where
  "trim s = rev (dropWhile isSpace (rev (dropWhile isSpace s)))"

fun showNat :: "nat \<Rightarrow> jsstring" where
  "showNat n = (if n < 10 then [48 + n] else showNat (n div 10) @ [48 + n mod 10])"

declare showNat.simps [simp del]

fun lastIndexOf :: "jsstring \<Rightarrow> nat \<Rightarrow> nat option" where
  "lastIndexOf [] c = None"
| "lastIndexOf (x # xs) c =
     (case lastIndexOf xs c of
        Some k \<Rightarrow> Some (Suc k)
      | None \<Rightarrow> if x = c then Some 0 else None)"

text \<open>The character class \<open>[\<bslash>w\<bslash>-\<bslash>[\<bslash>]]\<close>, the test \<open>/^[\<bslash>w\<bslash>[\<bslash>]-]+/\<close> and the
  replacement of every maximal run of other characters by one underscore,
  \<open>replace(/[^\<bslash>w\<bslash>-\<bslash>[\<bslash>]]+/g, '_')\<close>.\<close>

definition isNameChar :: "nat \<Rightarrow> bool" where
  "isNameChar c \<longleftrightarrow> isWord c \<or> c = cu CHR ''-'' \<or> c = cu CHR ''['' \<or> c = cu CHR '']''"

definition startsWithNameChar :: "jsstring \<Rightarrow> bool" where
  "startsWithNameChar s \<longleftrightarrow> (case s of [] \<Rightarrow> False | c # _ \<Rightarrow> isNameChar c)"

function replaceOthers :: "jsstring \<Rightarrow> jsstring" where
  "replaceOthers [] = []"
| "replaceOthers (c # cs) =
     (if isNameChar c then c # replaceOthers cs
      else cu CHR ''_'' # replaceOthers (dropWhile (\<lambda>x. \<not> isNameChar x) cs))"
  by pat_completeness auto
termination
  by (relation "measure length") (auto simp: length_dropWhile_le le_imp_less_Suc)

definition normalizeForMerge :: "jsstring \<Rightarrow> jsstring" where
  "normalizeForMerge name =
     (if startsWith name (js ''WAWeb'') then drop (length (js ''WAWeb'')) name else name)"

definition safeNameComponent :: "env \<Rightarrow> jsstring \<Rightarrow> jsstring" where
  "safeNameComponent E name =
     (let cleaned = trim (replaceOthers name);
          raw = (if cleaned = [] then js ''group'' else cleaned);
          maxLen = 80
      in if length raw \<le> maxLen then raw
         else (let hash = sha1Hex10 E raw;
                   prefixLen = max 1 (maxLen - (1 + length hash))
               in slice raw 0 prefixLen @ js ''_'' @ hash))"

fun longestCommonPrefix :: "jsstring \<Rightarrow> jsstring \<Rightarrow> jsstring" where
  "longestCommonPrefix (x # xs) (y # ys) = (if x = y then x # longestCommonPrefix xs ys else [])"
| "longestCommonPrefix xs ys = []"

text \<open>An element of \<open>items\<close> and of the result of \<open>computeMergePrefixes\<close>: the fields \<open>raw\<close>
  and \<open>norm\<close>.\<close>

record named =
  rawOf :: jsstring
  normOf :: jsstring

text \<open>\<open>Array.prototype.sort\<close> with a comparison function: a stable sort, here by insertion.\<close>

fun insertBy :: "('a \<Rightarrow> 'a \<Rightarrow> int) \<Rightarrow> 'a \<Rightarrow> 'a list \<Rightarrow> 'a list" where
  "insertBy cmp x [] = [x]"
| "insertBy cmp x (y # ys) = (if cmp x y < 0 then x # y # ys else y # insertBy cmp x ys)"

definition sortBy :: "('a \<Rightarrow> 'a \<Rightarrow> int) \<Rightarrow> 'a list \<Rightarrow> 'a list" where
  "sortBy cmp xs = foldl (\<lambda>acc x. insertBy cmp x acc) [] xs"

text \<open>
  \<open>prefixMembers\<close>, a \<open>Map\<close> from a prefix to a \<open>Set\<close> of raw names, as a list of entries
  in insertion order, each set as the list of its elements in insertion order.
  \<open>addMember\<close> is \<open>if (!prefixMembers.has(lcp)) prefixMembers.set(lcp, new Set())\<close> followed
  by \<open>prefixMembers.get(lcp)!.add(m)\<close>.
\<close>

type_synonym prefixMap = "(jsstring \<times> jsstring list) list"

fun addMember :: "jsstring \<Rightarrow> jsstring \<Rightarrow> prefixMap \<Rightarrow> prefixMap" where
  "addMember lcp m [] = [(lcp, [m])]"
| "addMember lcp m ((k, ms) # rest) =
     (if k = lcp then (k, if m \<in> set ms then ms else ms @ [m]) # rest
      else (k, ms) # addMember lcp m rest)"

text \<open>The loop over \<open>j\<close> for a fixed \<open>items[i]\<close> (\<open>later\<close> are the items after it), with its
  \<open>break\<close>, and the loop over \<open>i\<close>.\<close>

fun pairLoop :: "nat \<Rightarrow> named \<Rightarrow> named list \<Rightarrow> prefixMap \<Rightarrow> prefixMap" where
  "pairLoop minPrefixLen a [] pm = pm"
| "pairLoop minPrefixLen a (b # later) pm =
     (let lcp = longestCommonPrefix (normOf a) (normOf b)
      in if length lcp < minPrefixLen then pm
         else pairLoop minPrefixLen a later (addMember lcp (rawOf b) (addMember lcp (rawOf a) pm)))"

fun itemLoop :: "nat \<Rightarrow> named list \<Rightarrow> prefixMap \<Rightarrow> prefixMap" where
  "itemLoop minPrefixLen [] pm = pm"
| "itemLoop minPrefixLen (a # later) pm =
     itemLoop minPrefixLen later (pairLoop minPrefixLen a later pm)"

text \<open>The greedy selection over the sorted candidates, with the variables \<open>selected\<close> and
  \<open>covered\<close>.\<close>

fun selectLoop ::
  "nat \<Rightarrow> prefixMap \<Rightarrow> jsstring list \<Rightarrow> jsstring list \<Rightarrow> jsstring list" where
  "selectLoop minMembers [] selected covered = selected"
| "selectLoop minMembers ((prefix, members) # rest) selected covered =
     (let uncovered = filter (\<lambda>m. m \<notin> set covered) members
      in if length uncovered \<ge> minMembers
         then selectLoop minMembers rest (selected @ [prefix]) (covered @ members)
         else selectLoop minMembers rest selected covered)"

definition computeMergePrefixes :: "env \<Rightarrow> jsstring list \<Rightarrow> nat \<Rightarrow> nat \<Rightarrow> named list" where
  "computeMergePrefixes E rawNames minPrefixLen minMembers =
     (if length rawNames < minMembers then []
      else
        (let items0 = filter (\<lambda>x. length (normOf x) \<ge> minPrefixLen)
                        (map (\<lambda>raw. \<lparr>rawOf = raw, normOf = normalizeForMerge raw\<rparr>) rawNames);
             items = sortBy (\<lambda>a b. localeCompare E (normOf a) (normOf b)) items0;
             prefixMembers = itemLoop minPrefixLen items [];
             candidates =
               sortBy (\<lambda>a b.
                   if int (length (fst b)) - int (length (fst a)) \<noteq> 0
                   then int (length (fst b)) - int (length (fst a))
                   else int (length (snd b)) - int (length (snd a)))
                 (filter (\<lambda>(_, members). length members \<ge> minMembers) prefixMembers);
             selected = selectLoop minMembers candidates [] []
         in map (\<lambda>norm.
                  (let matching = filter (\<lambda>i. startsWith (normOf i) norm) items;
                       withWAWeb = length (filter (\<lambda>i. startsWith (rawOf i) (js ''WAWeb'')) matching)
                   in \<lparr>rawOf = (if 2 * withWAWeb > length matching then js ''WAWeb'' @ norm else norm),
                       normOf = norm\<rparr>))
              selected))"

text \<open>The two loops of \<open>pickMergeDir\<close> over \<open>prefixes\<close>, with the variable \<open>best\<close>.\<close>

fun bestMatch :: "(named \<Rightarrow> bool) \<Rightarrow> named list \<Rightarrow> named option \<Rightarrow> named option" where
  "bestMatch matches [] best = best"
| "bestMatch matches (p # ps) best =
     bestMatch matches ps
       (if matches p \<and> (case best of None \<Rightarrow> True | Some b \<Rightarrow> length (normOf p) > length (normOf b))
        then Some p else best)"

text \<open>The entry of \<open>prefixes\<close> that \<open>pickMergeDir\<close> settles on: the longest one matching the
  part after the last dot, when the name has a dot after its first character and such an
  entry exists, and the longest one matching the normalized name otherwise.\<close>

definition pickMergeBest :: "jsstring \<Rightarrow> named list \<Rightarrow> named option" where
  "pickMergeBest rawName prefixes =
     (let norm = normalizeForMerge rawName;
          dotted =
            (case lastIndexOf norm (cu CHR ''.'') of
               None \<Rightarrow> None
             | Some dotIdx \<Rightarrow>
                 if dotIdx > 0 then
                   (let suffix = drop (dotIdx + 1) norm
                    in bestMatch (\<lambda>p. suffix = normOf p \<or> startsWith suffix (normOf p)) prefixes None)
                 else None)
      in case dotted of
           Some best \<Rightarrow> Some best
         | None \<Rightarrow> bestMatch (\<lambda>p. startsWith norm (normOf p)) prefixes None)"

definition pickMergeDir :: "env \<Rightarrow> jsstring \<Rightarrow> named list \<Rightarrow> jsstring option" where
  "pickMergeDir E rawName prefixes =
     map_option (\<lambda>best. safeNameComponent E (rawOf best)) (pickMergeBest rawName prefixes)"

section \<open>The export files\<close>

text \<open>\<open>s.indexOf(p)\<close>; \<open>None\<close> is \<open>-1\<close>.\<close>

fun indexOfFrom :: "jsstring \<Rightarrow> jsstring \<Rightarrow> nat \<Rightarrow> nat option" where
  "indexOfFrom p [] k = (if p = [] then Some k else None)"
| "indexOfFrom p (x # xs) k =
     (if take (length p) (x # xs) = p then Some k else indexOfFrom p xs (Suc k))"

definition indexOf :: "jsstring \<Rightarrow> jsstring \<Rightarrow> nat option" where
  "indexOf s p = indexOfFrom p s 0"

text \<open>The last loop of \<open>extractFirstStringArg\<close>, over the characters that remain after the
  opening quote; \<open>None\<close> is \<open>null\<close>.\<close>

fun readQuoted :: "nat \<Rightarrow> jsstring \<Rightarrow> jsstring \<Rightarrow> jsstring option" where
  "readQuoted quote [] out = None"
| "readQuoted quote (ch # rest) out =
     (if ch = c_backslash then
        (case rest of
           [] \<Rightarrow> None
         | nxt # rest' \<Rightarrow> readQuoted quote rest' (out @ [nxt]))
      else if ch = quote then Some out
      else readQuoted quote rest (out @ [ch]))"

definition extractFirstStringArg :: "jsstring \<Rightarrow> jsstring option" where
  "extractFirstStringArg dCall =
     (case indexOf dCall marker of
        None \<Rightarrow> None
      | Some start \<Rightarrow>
          (let i = skipSpace dCall (start + length marker) in
           if i < length dCall \<and> (dCall ! i = c_dquote \<or> dCall ! i = c_squote)
           then readQuoted (dCall ! i) (drop (i + 1) dCall) []
           else None))"

text \<open>\<open>(extractFirstStringArg(dCall) || '').trim()\<close> and the test
  \<open>rawName && /^[\<bslash>w\<bslash>[\<bslash>]-]+/.test(rawName)\<close>.\<close>

definition rawNameOf :: "jsstring \<Rightarrow> jsstring" where
  "rawNameOf dCall = trim (case extractFirstStringArg dCall of None \<Rightarrow> [] | Some s \<Rightarrow> s)"

definition isDeclared :: "jsstring \<Rightarrow> bool" where
  "isDeclared rawName \<longleftrightarrow> rawName \<noteq> [] \<and> startsWithNameChar rawName"

definition maybeToIA :: "env \<Rightarrow> jsstring \<Rightarrow> bool \<Rightarrow> jsstring" where
  "maybeToIA E code enabled = (if enabled then toIaText E code else code)"

text \<open>\<open>path.join(dir, file)\<close> for a directory name without separators, on a POSIX host.\<close>

definition pathJoin :: "jsstring \<Rightarrow> jsstring \<Rightarrow> jsstring" where
  "pathJoin dir file = dir @ js ''/'' @ file"

record exportFile =
  fileName :: jsstring
  content :: jsstring

text \<open>The options of \<open>buildExportFiles\<close>; \<open>None\<close> is a field that is absent (or \<open>null\<close>).\<close>

record opts =
  disambiguate :: "bool option"
  toIa :: "bool option"
  mergeCommonNames :: "bool option"
  mergeCommonPrefixes :: "jsstring list option"

text \<open>
  The base name and the disambiguated name of one call, with the counter \<open>count\<close> and the
  map \<open>usedNames\<close> (\<open>None\<close> when it is \<open>null\<close>) before and after.
\<close>

definition baseName :: "jsstring \<Rightarrow> nat \<Rightarrow> jsstring \<times> nat" where
  "baseName rawName count =
     (if isDeclared rawName then (replaceOthers rawName, count)
      else (js ''module_'' @ showNat (count + 1), count + 1))"

definition disambiguated ::
  "jsstring \<Rightarrow> (jsstring \<rightharpoonup> nat) option \<Rightarrow> jsstring \<times> (jsstring \<rightharpoonup> nat) option" where
  "disambiguated safeBaseBase usedNames =
     (case usedNames of
        None \<Rightarrow> (safeBaseBase, None)
      | Some used \<Rightarrow>
          (let seen = (case used safeBaseBase of None \<Rightarrow> 0 | Some n \<Rightarrow> n)
           in (if seen = 0 then safeBaseBase else safeBaseBase @ js ''_'' @ showNat (seen + 1),
               Some (used(safeBaseBase \<mapsto> seen + 1)))))"

text \<open>The last loop of \<open>buildExportFiles\<close>.\<close>

fun exportLoop ::
  "env \<Rightarrow> bool \<Rightarrow> bool \<Rightarrow> named list \<Rightarrow> jsstring list \<Rightarrow> nat \<Rightarrow>
   (jsstring \<rightharpoonup> nat) option \<Rightarrow> exportFile list" where
  "exportLoop E toIa' mergeCommonNames' mergePrefixes [] count usedNames = []"
| "exportLoop E toIa' mergeCommonNames' mergePrefixes (dCall # calls) count usedNames =
     (let rawName = rawNameOf dCall;
          (safeBaseBase, count') = baseName rawName count;
          (safeBase, usedNames') = disambiguated safeBaseBase usedNames;
          content' = maybeToIA E dCall toIa';
          relPath =
            (if mergeCommonNames' \<and> isDeclared rawName then
               (case pickMergeDir E rawName mergePrefixes of
                  Some dir \<Rightarrow>
                    if dir \<noteq> [] then pathJoin dir (safeBase @ js ''.js'')
                    else safeBase @ js ''.js''
                | None \<Rightarrow> safeBase @ js ''.js'')
             else safeBase @ js ''.js'')
      in \<lparr>fileName = relPath, content = content'\<rparr>
         # exportLoop E toIa' mergeCommonNames' mergePrefixes calls count' usedNames')"

definition buildExportFiles :: "env \<Rightarrow> jsstring \<Rightarrow> opts \<Rightarrow> exportFile list" where
  "buildExportFiles E bundleContent options =
     (let calls = extractDCalls bundleContent in
      if calls = [] then []
      else
        (let disambiguate' = (disambiguate options \<noteq> Some False);
             toIa' = (toIa options = Some True);
             mergeCommonNames' = (mergeCommonNames options = Some True);
             usedNames = (if disambiguate' then Some Map.empty else None);
             mergePrefixes =
               (if mergeCommonNames' then
                  (case mergeCommonPrefixes options of
                     Some given \<Rightarrow>
                       if length given > 0
                       then map (\<lambda>raw. \<lparr>rawOf = raw, normOf = normalizeForMerge raw\<rparr>) given
                       else computeMergePrefixes E
                              (filter isDeclared (map rawNameOf calls)) 3 2
                   | None \<Rightarrow>
                       computeMergePrefixes E (filter isDeclared (map rawNameOf calls)) 3 2)
                else [])
         in exportLoop E toIa' mergeCommonNames' mergePrefixes calls 0 usedNames))"

text \<open>A comparison for the examples: the order of the code units.\<close>

fun codeUnitCompare :: "jsstring \<Rightarrow> jsstring \<Rightarrow> int" where
  "codeUnitCompare [] [] = 0"
| "codeUnitCompare [] (y # ys) = - 1"
| "codeUnitCompare (x # xs) [] = 1"
| "codeUnitCompare (x # xs) (y # ys) =
     (if x < y then - 1 else if y < x then 1 else codeUnitCompare xs ys)"


text \<open>An environment and the options \<open>{}\<close> for the examples.\<close>

definition exampleEnv :: env where
  "exampleEnv =
     \<lparr>localeCompare = codeUnitCompare, sha1Hex10 = (\<lambda>s. js ''0000000000''), toIaText = (\<lambda>s. s)\<rparr>"

definition noOpts :: opts where
  "noOpts = \<lparr>disambiguate = None, toIa = None, mergeCommonNames = None, mergeCommonPrefixes = None\<rparr>"

lemma startsWith_refl: "startsWith s s"
  by (simp add: startsWith_def)

lemma longestCommonPrefix_left: "startsWith a (longestCommonPrefix a b)"
  by (induction a b rule: longestCommonPrefix.induct) (auto simp: startsWith_def)

lemma longestCommonPrefix_right: "startsWith b (longestCommonPrefix a b)"
  by (induction a b rule: longestCommonPrefix.induct) (auto simp: startsWith_def)

lemma startsWith_common:
  "startsWith a p \<Longrightarrow> startsWith b p \<Longrightarrow> length p \<le> length (longestCommonPrefix a b)"
proof (induction p arbitrary: a b)
  case Nil
  then show ?case by simp
next
  case (Cons x p)
  from Cons.prems obtain a' b' where a: "a = x # a'" and b: "b = x # b'"
    by (cases a; cases b) (auto simp: startsWith_def)
  with Cons.prems have "startsWith a' p" "startsWith b' p" by (simp_all add: startsWith_def)
  from Cons.IH[OF this] a b show ?case by simp
qed

lemma bestMatch_Some:
  "bestMatch matches ps best = Some p \<Longrightarrow> best = Some p \<or> (p \<in> set ps \<and> matches p)"
proof (induction ps arbitrary: best)
  case Nil
  then show ?case by simp
next
  case (Cons q ps)
  let ?b = "if matches q \<and> (case best of None \<Rightarrow> True | Some b \<Rightarrow> length (normOf q) > length (normOf b))
        then Some q else best"
  from Cons.prems have "bestMatch matches ps ?b = Some p" by simp
  from Cons.IH[OF this] show ?case by (auto split: if_splits)
qed

text \<open>The string that \<open>pickMergeDir\<close> compares with the prefixes when it settles on an
  entry: the part after the last dot when the first loop finds an entry, and the
  normalized name otherwise.\<close>

definition matchKey :: "jsstring \<Rightarrow> named list \<Rightarrow> jsstring" where
  "matchKey rawName prefixes =
     (let norm = normalizeForMerge rawName in
      case lastIndexOf norm (cu CHR ''.'') of
        None \<Rightarrow> norm
      | Some dotIdx \<Rightarrow>
          if dotIdx > 0 \<and>
             bestMatch (\<lambda>p. drop (dotIdx + 1) norm = normOf p \<or>
                            startsWith (drop (dotIdx + 1) norm) (normOf p)) prefixes None \<noteq> None
          then drop (dotIdx + 1) norm else norm)"

lemma pickMergeBest_Some:
  assumes "pickMergeBest rawName prefixes = Some p"
  shows "p \<in> set prefixes \<and> startsWith (matchKey rawName prefixes) (normOf p)"
proof -
  let ?norm = "normalizeForMerge rawName"
  show ?thesis
  proof (cases "lastIndexOf ?norm (cu CHR ''.'')")
    case None
    with assms have "bestMatch (\<lambda>p. startsWith ?norm (normOf p)) prefixes None = Some p"
      by (simp add: pickMergeBest_def Let_def)
    from bestMatch_Some[OF this] None show ?thesis by (simp add: matchKey_def Let_def)
  next
    case (Some dotIdx)
    let ?sfx = "drop (dotIdx + 1) ?norm"
    let ?m = "\<lambda>p. ?sfx = normOf p \<or> startsWith ?sfx (normOf p)"
    show ?thesis
    proof (cases "dotIdx > 0 \<and> bestMatch ?m prefixes None \<noteq> None")
      case True
      with assms Some have "bestMatch ?m prefixes None = Some p"
        by (auto simp: pickMergeBest_def Let_def)
      from bestMatch_Some[OF this] have "p \<in> set prefixes" "startsWith ?sfx (normOf p)"
        using startsWith_refl by auto
      with Some True show ?thesis by (simp add: matchKey_def Let_def)
    next
      case False
      with assms Some have "bestMatch (\<lambda>p. startsWith ?norm (normOf p)) prefixes None = Some p"
        by (auto simp: pickMergeBest_def Let_def split: if_splits)
      from bestMatch_Some[OF this] Some False show ?thesis
        by (auto simp: matchKey_def Let_def)
    qed
  qed
qed

text \<open>The invariant of \<open>prefixMembers\<close>: every prefix has at least the minimum length, and
  every member of its set is one of the raw names, listed once, whose normalized name
  starts with the prefix.\<close>

definition membersOk :: "jsstring set \<Rightarrow> nat \<Rightarrow> prefixMap \<Rightarrow> bool" where
  "membersOk names minPrefixLen pm \<longleftrightarrow>
     (\<forall>(k, ms) \<in> set pm. minPrefixLen \<le> length k \<and> distinct ms \<and>
        (\<forall>m \<in> set ms. m \<in> names \<and> startsWith (normalizeForMerge m) k))"

lemma addMember_ok:
  assumes "membersOk names n pm" "n \<le> length lcp" "m \<in> names"
    "startsWith (normalizeForMerge m) lcp"
  shows "membersOk names n (addMember lcp m pm)"
  using assms
proof (induction pm)
  case Nil
  then show ?case by (simp add: membersOk_def)
next
  case (Cons e pm)
  obtain k ms where e: "e = (k, ms)" by (cases e)
  from Cons.prems(1) have tl: "membersOk names n pm" by (simp add: membersOk_def)
  show ?case
  proof (cases "k = lcp")
    case True
    with Cons.prems e show ?thesis by (auto simp: membersOk_def)
  next
    case False
    from Cons.IH[OF tl Cons.prems(2-4)] Cons.prems(1) e False show ?thesis
      by (auto simp: membersOk_def)
  qed
qed

definition itemOk :: "jsstring set \<Rightarrow> named \<Rightarrow> bool" where
  "itemOk names a \<longleftrightarrow> rawOf a \<in> names \<and> normOf a = normalizeForMerge (rawOf a)"

lemma pairLoop_ok:
  assumes "membersOk names n pm" "itemOk names a" "\<forall>b \<in> set later. itemOk names b"
  shows "membersOk names n (pairLoop n a later pm)"
  using assms
proof (induction later arbitrary: pm)
  case Nil
  then show ?case by simp
next
  case (Cons b later)
  let ?lcp = "longestCommonPrefix (normOf a) (normOf b)"
  show ?case
  proof (cases "length ?lcp < n")
    case True
    with Cons.prems show ?thesis by (simp add: Let_def)
  next
    case False
    from Cons.prems have b: "itemOk names b" by simp
    from Cons.prems(2) have a: "rawOf a \<in> names" "normalizeForMerge (rawOf a) = normOf a"
      by (simp_all add: itemOk_def)
    from b have b': "rawOf b \<in> names" "normalizeForMerge (rawOf b) = normOf b"
      by (simp_all add: itemOk_def)
    from False have len: "n \<le> length ?lcp" by simp
    have sa: "startsWith (normalizeForMerge (rawOf a)) ?lcp"
      unfolding a(2) by (rule longestCommonPrefix_left)
    have sb: "startsWith (normalizeForMerge (rawOf b)) ?lcp"
      unfolding b'(2) by (rule longestCommonPrefix_right)
    have 1: "membersOk names n (addMember ?lcp (rawOf a) pm)"
      using Cons.prems(1) len a(1) sa by (rule addMember_ok)
    have 2: "membersOk names n (addMember ?lcp (rawOf b) (addMember ?lcp (rawOf a) pm))"
      using 1 len b'(1) sb by (rule addMember_ok)
    from Cons.IH[OF 2 Cons.prems(2)] Cons.prems(3) False show ?thesis by (simp add: Let_def)
  qed
qed

lemma itemLoop_ok:
  assumes "membersOk names n pm" "\<forall>b \<in> set items. itemOk names b"
  shows "membersOk names n (itemLoop n items pm)"
  using assms
proof (induction items arbitrary: pm)
  case Nil
  then show ?case by simp
next
  case (Cons a later)
  have "membersOk names n (pairLoop n a later pm)"
    using Cons.prems by (intro pairLoop_ok) auto
  from Cons.IH[OF this] Cons.prems(2) show ?case by simp
qed

lemma set_insertBy: "set (insertBy cmp x xs) = insert x (set xs)"
  by (induction xs) auto

lemma set_sortBy_aux: "set (foldl (\<lambda>acc x. insertBy cmp x acc) acc xs) = set acc \<union> set xs"
  by (induction xs arbitrary: acc) (auto simp: set_insertBy)

lemma set_sortBy: "set (sortBy cmp xs) = set xs"
  by (simp add: sortBy_def set_sortBy_aux)

lemma selectLoop_subset:
  "set (selectLoop n cands selected covered) \<subseteq> set selected \<union> fst ` set cands"
proof (induction cands arbitrary: selected covered)
  case Nil
  then show ?case by simp
next
  case (Cons e cands)
  obtain k ms where e: "e = (k, ms)" by (cases e)
  show ?case
    using Cons.IH[of "selected @ [k]" "covered @ ms"] Cons.IH[of selected covered] e
    by (auto simp: Let_def)
qed

lemma computeMergePrefixes_members:
  assumes "p \<in> set (computeMergePrefixes E rawNames minPrefixLen minMembers)"
  shows "minPrefixLen \<le> length (normOf p) \<and>
         (\<exists>ms. distinct ms \<and> minMembers \<le> length ms \<and> set ms \<subseteq> set rawNames \<and>
               (\<forall>m \<in> set ms. startsWith (normalizeForMerge m) (normOf p)))"
proof -
  let ?items0 = "filter (\<lambda>x. length (normOf x) \<ge> minPrefixLen)
                        (map (\<lambda>raw. \<lparr>rawOf = raw, normOf = normalizeForMerge raw\<rparr>) rawNames)"
  let ?items = "sortBy (\<lambda>a b. localeCompare E (normOf a) (normOf b)) ?items0"
  let ?pm = "itemLoop minPrefixLen ?items []"
  let ?cmp = "\<lambda>a b :: jsstring \<times> jsstring list.
                   if int (length (fst b)) - int (length (fst a)) \<noteq> 0
                   then int (length (fst b)) - int (length (fst a))
                   else int (length (snd b)) - int (length (snd a))"
  let ?cands = "sortBy ?cmp (filter (\<lambda>(_, members). length members \<ge> minMembers) ?pm)"
  let ?sel = "selectLoop minMembers ?cands [] []"
  from assms have "normOf p \<in> set ?sel"
    by (auto simp: computeMergePrefixes_def Let_def split: if_splits)
  then have "normOf p \<in> fst ` set ?cands"
    using selectLoop_subset[of minMembers ?cands "[]" "[]"] by auto
  then obtain ms where ms: "(normOf p, ms) \<in> set ?pm" "minMembers \<le> length ms"
    by (auto simp: set_sortBy)
  have "\<forall>b \<in> set ?items. itemOk (set rawNames) b"
    by (auto simp: set_sortBy itemOk_def)
  then have "membersOk (set rawNames) minPrefixLen ?pm"
    by (intro itemLoop_ok) (simp_all add: membersOk_def)
  with ms(1) have "minPrefixLen \<le> length (normOf p)" "distinct ms"
    "\<forall>m \<in> set ms. m \<in> set rawNames \<and> startsWith (normalizeForMerge m) (normOf p)"
    by (auto simp: membersOk_def)
  with ms(2) show ?thesis by blast
qed

lemma ex5_prefixes:
  "computeMergePrefixes exampleEnv [js ''FooBar'', js ''FooBaz'', js ''X.FooBar''] 3 2
     = [\<lparr>rawOf = js ''FooBa'', normOf = js ''FooBa''\<rparr>]"
  by (simp add: computeMergePrefixes_def exampleEnv_def normalizeForMerge_def startsWith_def
      sortBy_def js_def Let_def)

lemma ex5_best1:
  "pickMergeBest (js ''FooBaz'') [\<lparr>rawOf = js ''FooBa'', normOf = js ''FooBa''\<rparr>]
     = Some \<lparr>rawOf = js ''FooBa'', normOf = js ''FooBa''\<rparr>"
  by (simp add: pickMergeBest_def normalizeForMerge_def startsWith_def js_def Let_def)

lemma ex5_best2:
  "pickMergeBest (js ''X.FooBar'') [\<lparr>rawOf = js ''FooBa'', normOf = js ''FooBa''\<rparr>]
     = Some \<lparr>rawOf = js ''FooBa'', normOf = js ''FooBa''\<rparr>"
  by (simp add: pickMergeBest_def normalizeForMerge_def startsWith_def js_def Let_def)

lemma ex5_safe: "safeNameComponent exampleEnv (js ''FooBa'') = js ''FooBa''"
  by (simp add: safeNameComponent_def trim_def isNameChar_def isWord_def isSpace_def js_def Let_def)

lemma ex5_key: "matchKey (js ''X.FooBar'') [\<lparr>rawOf = js ''FooBa'', normOf = js ''FooBa''\<rparr>] = js ''FooBar''"
  by (simp add: matchKey_def normalizeForMerge_def startsWith_def js_def Let_def)


lemma pickMergeDir_Some:
  assumes "pickMergeDir E rawName prefixes = Some dir"
  shows "\<exists>p \<in> set prefixes. dir = safeNameComponent E (rawOf p) \<and>
           pickMergeBest rawName prefixes = Some p \<and>
           startsWith (matchKey rawName prefixes) (normOf p)"
proof -
  from assms obtain p where p: "pickMergeBest rawName prefixes = Some p"
    and d: "dir = safeNameComponent E (rawOf p)"
    by (auto simp: pickMergeDir_def)
  from pickMergeBest_Some[OF p] p d show ?thesis by blast
qed

lemma ex5b_prefixes:
  "computeMergePrefixes exampleEnv [js ''ab.x'', js ''ab.y'', js ''ab_x'', js ''ab_y''] 3 2
     = [\<lparr>rawOf = js ''ab.'', normOf = js ''ab.''\<rparr>, \<lparr>rawOf = js ''ab_'', normOf = js ''ab_''\<rparr>]"
  by (simp add: computeMergePrefixes_def exampleEnv_def normalizeForMerge_def startsWith_def
      sortBy_def js_def Let_def)

lemma ex5b_best1:
  "pickMergeBest (js ''ab.x'')
     [\<lparr>rawOf = js ''ab.'', normOf = js ''ab.''\<rparr>, \<lparr>rawOf = js ''ab_'', normOf = js ''ab_''\<rparr>]
     = Some \<lparr>rawOf = js ''ab.'', normOf = js ''ab.''\<rparr>"
  by (simp add: pickMergeBest_def normalizeForMerge_def startsWith_def js_def Let_def)

lemma ex5b_best2:
  "pickMergeBest (js ''ab_x'')
     [\<lparr>rawOf = js ''ab.'', normOf = js ''ab.''\<rparr>, \<lparr>rawOf = js ''ab_'', normOf = js ''ab_''\<rparr>]
     = Some \<lparr>rawOf = js ''ab_'', normOf = js ''ab_''\<rparr>"
  by (simp add: pickMergeBest_def normalizeForMerge_def startsWith_def js_def Let_def)

lemma ex5b_safe:
  "safeNameComponent exampleEnv (js ''ab.'') = js ''ab_''"
  "safeNameComponent exampleEnv (js ''ab_'') = js ''ab_''"
  by (simp_all add: safeNameComponent_def trim_def isNameChar_def isWord_def isSpace_def js_def
      Let_def)

lemma ex5b_key:
  "matchKey (js ''ab.x'')
     [\<lparr>rawOf = js ''ab.'', normOf = js ''ab.''\<rparr>, \<lparr>rawOf = js ''ab_'', normOf = js ''ab_''\<rparr>]
     = js ''ab.x''"
  "matchKey (js ''ab_x'')
     [\<lparr>rawOf = js ''ab.'', normOf = js ''ab.''\<rparr>, \<lparr>rawOf = js ''ab_'', normOf = js ''ab_''\<rparr>]
     = js ''ab_x''"
  by (simp_all add: matchKey_def normalizeForMerge_def startsWith_def js_def Let_def)

text \<open>
  C5, as stated, fails, in two ways. With the names \<open>FooBar\<close>, \<open>FooBaz\<close> and \<open>X.FooBar\<close>
  the one cluster has the prefix \<open>FooBa\<close>, and both \<open>FooBaz\<close> and \<open>X.FooBar\<close> are placed
  into its directory, the second through the part after its last dot; their normalized
  names have no common prefix at all. With the names \<open>ab.x\<close>, \<open>ab.y\<close>, \<open>ab_x\<close> and \<open>ab_y\<close>
  there are the two clusters \<open>ab.\<close> and \<open>ab_\<close>, whose directory names are both \<open>ab_\<close> after
  \<open>safeNameComponent\<close>: \<open>ab.x\<close> and \<open>ab_x\<close> are placed into the same directory, and their
  normalized names have only \<open>ab\<close> in common.
\<close>

theorem same_directory_without_common_prefix:
  "pickMergeDir exampleEnv (js ''FooBaz'')
     (computeMergePrefixes exampleEnv [js ''FooBar'', js ''FooBaz'', js ''X.FooBar''] 3 2)
     = Some (js ''FooBa'') \<and>
   pickMergeDir exampleEnv (js ''X.FooBar'')
     (computeMergePrefixes exampleEnv [js ''FooBar'', js ''FooBaz'', js ''X.FooBar''] 3 2)
     = Some (js ''FooBa'') \<and>
   longestCommonPrefix (normalizeForMerge (js ''FooBaz'')) (normalizeForMerge (js ''X.FooBar''))
     = [] \<and>
   pickMergeDir exampleEnv (js ''ab.x'')
     (computeMergePrefixes exampleEnv [js ''ab.x'', js ''ab.y'', js ''ab_x'', js ''ab_y''] 3 2)
     = Some (js ''ab_'') \<and>
   pickMergeDir exampleEnv (js ''ab_x'')
     (computeMergePrefixes exampleEnv [js ''ab.x'', js ''ab.y'', js ''ab_x'', js ''ab_y''] 3 2)
     = Some (js ''ab_'') \<and>
   longestCommonPrefix (normalizeForMerge (js ''ab.x'')) (normalizeForMerge (js ''ab_x''))
     = js ''ab''"
  unfolding ex5_prefixes ex5b_prefixes pickMergeDir_def ex5_best1 ex5_best2 ex5b_best1 ex5b_best2
  by (simp add: ex5_safe ex5b_safe) (simp add: normalizeForMerge_def startsWith_def js_def)

text \<open>
  C5, amended. With minimum prefix length 3 and minimum member count 2, every selected
  cluster has a normalized prefix of at least 3 characters and at least 2 distinct
  members among the raw names, each with a normalized name that starts with the prefix.
  A directory that \<open>pickMergeDir\<close> returns for a module is the directory name of a selected
  cluster whose prefix is a prefix of the string the module was matched by: the part
  after the last dot of its normalized name when that part starts with the prefix of a
  cluster, and the normalized name otherwise. When no two selected clusters have the same
  directory name, the strings by which any two modules placed into the same directory
  were matched share a prefix of at least 3 characters.
\<close>

theorem prefix_clustering_sound:
  assumes "prefixes = computeMergePrefixes E rawNames 3 2"
  shows "(\<forall>p \<in> set prefixes.
            3 \<le> length (normOf p) \<and>
            (\<exists>ms. distinct ms \<and> 2 \<le> length ms \<and> set ms \<subseteq> set rawNames \<and>
                  (\<forall>m \<in> set ms. startsWith (normalizeForMerge m) (normOf p)))) \<and>
         (\<forall>name dir. pickMergeDir E name prefixes = Some dir \<longrightarrow>
            (\<exists>p \<in> set prefixes. dir = safeNameComponent E (rawOf p) \<and>
               startsWith (matchKey name prefixes) (normOf p))) \<and>
         (inj_on (\<lambda>p. safeNameComponent E (rawOf p)) (set prefixes) \<longrightarrow>
            (\<forall>name1 name2 dir.
               pickMergeDir E name1 prefixes = Some dir \<and>
               pickMergeDir E name2 prefixes = Some dir \<longrightarrow>
               3 \<le> length (longestCommonPrefix (matchKey name1 prefixes)
                                                (matchKey name2 prefixes))))"
proof (intro conjI ballI allI impI)
  fix p assume "p \<in> set prefixes"
  then have p: "p \<in> set (computeMergePrefixes E rawNames 3 2)" using assms by simp
  from computeMergePrefixes_members[OF p]
  show "3 \<le> length (normOf p)"
    and "\<exists>ms. distinct ms \<and> 2 \<le> length ms \<and> set ms \<subseteq> set rawNames \<and>
            (\<forall>m \<in> set ms. startsWith (normalizeForMerge m) (normOf p))"
    by simp_all
next
  fix name dir
  assume "pickMergeDir E name prefixes = Some dir"
  from pickMergeDir_Some[OF this]
  show "\<exists>p \<in> set prefixes. dir = safeNameComponent E (rawOf p) \<and>
               startsWith (matchKey name prefixes) (normOf p)"
    by blast
next
  fix name1 name2 dir
  assume inj: "inj_on (\<lambda>p. safeNameComponent E (rawOf p)) (set prefixes)"
    and d: "pickMergeDir E name1 prefixes = Some dir \<and> pickMergeDir E name2 prefixes = Some dir"
  from d pickMergeDir_Some[of E name1 prefixes dir] obtain p1 where
    p1: "p1 \<in> set prefixes" "dir = safeNameComponent E (rawOf p1)"
      "startsWith (matchKey name1 prefixes) (normOf p1)" by blast
  from d pickMergeDir_Some[of E name2 prefixes dir] obtain p2 where
    p2: "p2 \<in> set prefixes" "dir = safeNameComponent E (rawOf p2)"
      "startsWith (matchKey name2 prefixes) (normOf p2)" by blast
  from inj p1(1,2) p2(1,2) have "p1 = p2" by (auto dest: inj_onD)
  with p2(3) have k2: "startsWith (matchKey name2 prefixes) (normOf p1)" by simp
  from p1(1) have "p1 \<in> set (computeMergePrefixes E rawNames 3 2)" using assms by simp
  from computeMergePrefixes_members[OF this] have len: "3 \<le> length (normOf p1)" by simp
  show "3 \<le> length (longestCommonPrefix (matchKey name1 prefixes) (matchKey name2 prefixes))"
    using startsWith_common[OF p1(3) k2] len by simp
qed

theorem prefix_clustering_sound_witness:
  "computeMergePrefixes exampleEnv [js ''FooBar'', js ''FooBaz'', js ''X.FooBar''] 3 2
     = [\<lparr>rawOf = js ''FooBa'', normOf = js ''FooBa''\<rparr>] \<and>
   inj_on (\<lambda>p. safeNameComponent exampleEnv (rawOf p))
     (set [\<lparr>rawOf = js ''FooBa'', normOf = js ''FooBa''\<rparr>]) \<and>
   pickMergeDir exampleEnv (js ''FooBaz'') [\<lparr>rawOf = js ''FooBa'', normOf = js ''FooBa''\<rparr>]
     = Some (js ''FooBa'') \<and>
   pickMergeDir exampleEnv (js ''X.FooBar'') [\<lparr>rawOf = js ''FooBa'', normOf = js ''FooBa''\<rparr>]
     = Some (js ''FooBa'') \<and>
   matchKey (js ''FooBaz'') [\<lparr>rawOf = js ''FooBa'', normOf = js ''FooBa''\<rparr>] = js ''FooBaz'' \<and>
   matchKey (js ''X.FooBar'') [\<lparr>rawOf = js ''FooBa'', normOf = js ''FooBa''\<rparr>] = js ''FooBar'' \<and>
   3 \<le> length (longestCommonPrefix
          (matchKey (js ''FooBaz'') [\<lparr>rawOf = js ''FooBa'', normOf = js ''FooBa''\<rparr>])
          (matchKey (js ''X.FooBar'') [\<lparr>rawOf = js ''FooBa'', normOf = js ''FooBa''\<rparr>])) \<and>
   (\<exists>ms. distinct ms \<and> 2 \<le> length ms \<and>
         set ms \<subseteq> set [js ''FooBar'', js ''FooBaz'', js ''X.FooBar''] \<and>
         (\<forall>m \<in> set ms. startsWith (normalizeForMerge m) (js ''FooBa'')))"
proof -
  let ?ps = "[\<lparr>rawOf = js ''FooBa'', normOf = js ''FooBa''\<rparr>]"
  have eq: "?ps = computeMergePrefixes exampleEnv [js ''FooBar'', js ''FooBaz'', js ''X.FooBar''] 3 2"
    by (simp only: ex5_prefixes)
  have inj: "inj_on (\<lambda>p. safeNameComponent exampleEnv (rawOf p)) (set ?ps)" by simp
  have d1: "pickMergeDir exampleEnv (js ''FooBaz'') ?ps = Some (js ''FooBa'')"
    by (simp only: pickMergeDir_def ex5_best1) (simp add: ex5_safe)
  have d2: "pickMergeDir exampleEnv (js ''X.FooBar'') ?ps = Some (js ''FooBa'')"
    by (simp only: pickMergeDir_def ex5_best2) (simp add: ex5_safe)
  have k1: "matchKey (js ''FooBaz'') ?ps = js ''FooBaz''"
    by (simp add: matchKey_def normalizeForMerge_def startsWith_def js_def Let_def)
  note T = prefix_clustering_sound[OF eq]
  from T[THEN conjunct2, THEN conjunct2, THEN mp, OF inj] d1 d2
  have "3 \<le> length (longestCommonPrefix (matchKey (js ''FooBaz'') ?ps) (matchKey (js ''X.FooBar'') ?ps))"
    by blast
  moreover from T[THEN conjunct1]
  have "\<exists>ms. distinct ms \<and> 2 \<le> length ms \<and>
         set ms \<subseteq> set [js ''FooBar'', js ''FooBaz'', js ''X.FooBar''] \<and>
         (\<forall>m \<in> set ms. startsWith (normalizeForMerge m) (js ''FooBa''))"
    by simp
  ultimately show ?thesis
    using ex5_prefixes inj d1 d2 k1 ex5_key by blast
qed

section \<open>Disambiguation of the output names\<close>

lemma ex6_f1: "findNextDCallStart (js ''__d('A')__d('A')__d('A_2')'') 0 = Some 0"
  by (simp add: findNextDCallStart_def scanD.simps lex_eval)
lemma ex6_m1: "findMatchingParen (js ''__d('A')__d('A')__d('A_2')'') 3 = Inr 7"
  by (simp add: findMatchingParen_def scanP.simps lex_eval)
lemma ex6_k1: "skipSpace (js ''__d('A')__d('A')__d('A_2')'') 8 = 8"
  by (simp add: skipSpace.simps isSpace_def js_def)
lemma ex6_f2: "findNextDCallStart (js ''__d('A')__d('A')__d('A_2')'') 8 = Some 8"
  by (simp add: findNextDCallStart_def scanD.simps lex_eval)
lemma ex6_m2: "findMatchingParen (js ''__d('A')__d('A')__d('A_2')'') 11 = Inr 15"
  by (simp add: findMatchingParen_def scanP.simps lex_eval)
lemma ex6_k2: "skipSpace (js ''__d('A')__d('A')__d('A_2')'') 16 = 16"
  by (simp add: skipSpace.simps isSpace_def js_def)
lemma ex6_f3: "findNextDCallStart (js ''__d('A')__d('A')__d('A_2')'') 16 = Some 16"
  by (simp add: findNextDCallStart_def scanD.simps lex_eval)
lemma ex6_m3: "findMatchingParen (js ''__d('A')__d('A')__d('A_2')'') 19 = Inr 25"
  by (simp add: findMatchingParen_def scanP.simps lex_eval)
lemma ex6_k3: "skipSpace (js ''__d('A')__d('A')__d('A_2')'') 26 = 26"
  by (simp add: skipSpace.simps isSpace_def js_def)
lemma ex6_it1: "extractIter (js ''__d('A')__d('A')__d('A_2')'') 0 = Pushed 0 8"
  by (simp add: extractIter_def ex6_f1 ex6_m1 ex6_k1) (simp add: js_def)
lemma ex6_it2: "extractIter (js ''__d('A')__d('A')__d('A_2')'') 8 = Pushed 8 16"
  by (simp add: extractIter_def ex6_f2 ex6_m2 ex6_k2) (simp add: js_def)
lemma ex6_it3: "extractIter (js ''__d('A')__d('A')__d('A_2')'') 16 = Pushed 16 26"
  by (simp add: extractIter_def ex6_f3 ex6_m3 ex6_k3) (simp add: js_def)

lemma ex6_calls:
  "extractDCalls (js ''__d('A')__d('A')__d('A_2')'')
     = [js ''__d('A')'', js ''__d('A')'', js ''__d('A_2')'']"
  unfolding extractDCalls_def
  apply (subst extractFrom.simps)
  apply (simp add: ex6_it1)
  apply (subst extractFrom.simps)
  apply (simp add: ex6_it2)
  apply (subst extractFrom.simps)
  apply (simp add: ex6_it3)
  apply (subst extractFrom.simps)
  apply (simp add: js_def slice_def)
  done

lemmas name_eval =
  extractFirstStringArg_def indexOf_def skipSpace.simps trim_def isSpace_def isDeclared_def
  startsWithNameChar_def isNameChar_def isWord_def

lemma ex6_raw1: "rawNameOf (js ''__d('A')'') = js ''A''"
  by (simp add: rawNameOf_def name_eval js_def)
lemma ex6_raw2: "rawNameOf (js ''__d('A_2')'') = js ''A_2''"
  by (simp add: rawNameOf_def name_eval js_def)
lemma ex6_base1: "baseName (js ''A'') n = (js ''A'', n)"
  by (simp add: baseName_def name_eval js_def)
lemma ex6_base2: "baseName (js ''A_2'') n = (js ''A_2'', n)"
  by (simp add: baseName_def name_eval js_def)

text \<open>
  C3 on the code: with disambiguation enabled, the bundle with the declared names \<open>A\<close>,
  \<open>A\<close> and \<open>A_2\<close> gets the output paths \<open>A.js\<close>, \<open>A_2.js\<close> and \<open>A_2.js\<close>: the suffixed
  name of the second module is the base name of the third, which is new to \<open>usedNames\<close>
  and therefore kept as it is.
\<close>

theorem buildExportFiles_name_collision:
  "map fileName (buildExportFiles E (js ''__d('A')__d('A')__d('A_2')'') noOpts)
     = [js ''A.js'', js ''A_2.js'', js ''A_2.js''] \<and>
   \<not> distinct (map fileName (buildExportFiles E (js ''__d('A')__d('A')__d('A_2')'') noOpts))"
proof -
  have "map fileName (buildExportFiles E (js ''__d('A')__d('A')__d('A_2')'') noOpts)
     = [js ''A.js'', js ''A_2.js'', js ''A_2.js'']"
    unfolding buildExportFiles_def ex6_calls
    by (simp add: noOpts_def ex6_raw1 ex6_raw2 ex6_base1 ex6_base2 disambiguated_def
        showNat.simps Let_def)
       (simp add: js_def)
  then show ?thesis by (simp add: js_def)
qed

text \<open>
  What the disambiguation does do. \<open>baseNames\<close> are the base names of the calls in order,
  with the counter of the synthetic names threaded through. Without directories, the
  \<open>k\<close>-th output path is the \<open>k\<close>-th base name when no earlier call has the same base
  name, and that name with \<open>_<n+1>\<close> appended when \<open>n > 0\<close> earlier calls have it; the
  order of the calls is kept.
\<close>

fun baseNames :: "jsstring list \<Rightarrow> nat \<Rightarrow> jsstring list" where
  "baseNames [] count = []"
| "baseNames (dCall # dCalls) count =
     fst (baseName (rawNameOf dCall) count)
     # baseNames dCalls (snd (baseName (rawNameOf dCall) count))"

definition expectedName :: "jsstring list \<Rightarrow> nat \<Rightarrow> jsstring" where
  "expectedName bases k =
     (let seen = length (filter (\<lambda>x. x = bases ! k) (take k bases))
      in if seen = 0 then bases ! k else bases ! k @ js ''_'' @ showNat (seen + 1))"

definition usedAfter :: "jsstring list \<Rightarrow> jsstring \<rightharpoonup> nat" where
  "usedAfter earlier =
     (\<lambda>b. if length (filter (\<lambda>x. x = b) earlier) = 0 then None
          else Some (length (filter (\<lambda>x. x = b) earlier)))"

lemma usedAfter_step:
  "(usedAfter earlier)(b \<mapsto> Suc (case usedAfter earlier b of None \<Rightarrow> 0 | Some n \<Rightarrow> n))
     = usedAfter (earlier @ [b])"
  by (rule ext) (simp add: usedAfter_def)

lemma exportLoop_names:
  "map fileName (exportLoop E t False ps dCalls count (Some (usedAfter earlier)))
     = map (\<lambda>k. expectedName (earlier @ baseNames dCalls count) (length earlier + k) @ js ''.js'')
         [0..<length dCalls]"
proof (induction dCalls arbitrary: count earlier)
  case Nil
  then show ?case by simp
next
  case (Cons dCall dCalls)
  let ?b = "fst (baseName (rawNameOf dCall) count)"
  let ?c = "snd (baseName (rawNameOf dCall) count)"
  let ?seen = "case usedAfter earlier ?b of None \<Rightarrow> 0 | Some n \<Rightarrow> n"
  have seen: "?seen = length (filter (\<lambda>x. x = ?b) earlier)"
    by (simp add: usedAfter_def)
  have hd: "expectedName (earlier @ ?b # baseNames dCalls ?c) (length earlier)
      = (if ?seen = 0 then ?b else ?b @ js ''_'' @ showNat (?seen + 1))"
    unfolding seen by (simp add: expectedName_def Let_def)
  have tl: "map fileName (exportLoop E t False ps dCalls ?c (Some (usedAfter (earlier @ [?b]))))
      = map (\<lambda>k. expectedName (earlier @ ?b # baseNames dCalls ?c) (length earlier + Suc k) @ js ''.js'')
          [0..<length dCalls]"
    using Cons.IH[of ?c "earlier @ [?b]"] by simp
  have "map fileName (exportLoop E t False ps (dCall # dCalls) count (Some (usedAfter earlier)))
      = (expectedName (earlier @ ?b # baseNames dCalls ?c) (length earlier) @ js ''.js'')
        # map fileName (exportLoop E t False ps dCalls ?c (Some (usedAfter (earlier @ [?b]))))"
    unfolding hd
    by (simp add: Let_def case_prod_beta disambiguated_def usedAfter_step)
  also have "\<dots> = map (\<lambda>k. expectedName (earlier @ baseNames (dCall # dCalls) count)
      (length earlier + k) @ js ''.js'') [0..<length (dCall # dCalls)]"
    unfolding tl by (simp add: map_upt_Suc del: upt_Suc)
  finally show ?case .
qed

lemma disambiguation_scheme:
  assumes "disambiguate options \<noteq> Some False" and "mergeCommonNames options \<noteq> Some True"
  shows "map fileName (buildExportFiles E src options)
     = map (\<lambda>k. expectedName (baseNames (extractDCalls src) 0) k @ js ''.js'')
         [0..<length (extractDCalls src)]"
proof (cases "extractDCalls src = []")
  case True
  then show ?thesis by (simp add: buildExportFiles_def)
next
  case False
  have e: "(Map.empty :: jsstring \<rightharpoonup> nat) = usedAfter []"
    by (rule ext) (simp add: usedAfter_def)
  show ?thesis
    using False assms exportLoop_names[of E "toIa options = Some True" "[]" "extractDCalls src" 0 "[]"]
    by (simp add: buildExportFiles_def Let_def e)
qed

section \<open>The bounded concurrency runner\<close>

text \<open>
  \<open>runWithConcurrency\<close> starts \<open>min(concurrency, items.length)\<close> runners. A runner is an
  \<open>async\<close> function: it runs without interruption from one \<open>await\<close> to the next, so the
  only events are the settlements of the promises that \<open>worker\<close> returned. The state holds
  the variable \<open>nextIdx\<close>, what each runner is doing, the calls of \<open>worker\<close> so far (item
  and index, in order), the indices whose promise was fulfilled, and the state of the
  promise \<open>Promise.all(runners)\<close>, which is the promise of the call.
\<close>

datatype runner = Awaiting nat | Returned | Threw nat

datatype outcome = Pending | Resolved | Rejected nat

record 'a runState =
  nextIdx :: nat
  runners :: "runner list"
  calls :: "('a \<times> nat) list"
  fulfilled :: "nat list"
  outcome :: outcome

text \<open>\<open>Math.max(1, Math.floor(limit))\<close> for a finite number \<open>limit\<close>.\<close>

definition concurrencyOf :: "real \<Rightarrow> nat" where
  "concurrencyOf limit = nat (max 1 \<lfloor>limit\<rfloor>)"

text \<open>
  The state when \<open>runWithConcurrency\<close> reaches \<open>await Promise.all(runners)\<close>: runner \<open>k\<close>
  has taken index \<open>k\<close>, which is below \<open>items.length\<close>, and has called \<open>worker\<close>.
  \<open>Promise.all\<close> of no promise is fulfilled.
\<close>

definition startRun :: "'a list \<Rightarrow> real \<Rightarrow> 'a runState" where
  "startRun items limit =
     (let m = min (concurrencyOf limit) (length items) in
      \<lparr>nextIdx = m,
       runners = map Awaiting [0..<m],
       calls = map (\<lambda>idx. (items ! idx, idx)) [0..<m],
       fulfilled = [],
       outcome = (if m = 0 then Resolved else Pending)\<rparr>)"

text \<open>
  The promise awaited by runner \<open>r\<close> settles; \<open>fails idx\<close> tells whether the promise of
  \<open>worker(items[idx], idx)\<close> is rejected. On rejection the \<open>await\<close> throws, the runner's
  promise is rejected and with it \<open>Promise.all\<close>, if still pending. On fulfilment the
  runner takes the next index and either returns or calls \<open>worker\<close> again;
  \<open>Promise.all\<close> is fulfilled when the last runner has returned.
\<close>

definition settle :: "'a list \<Rightarrow> (nat \<Rightarrow> bool) \<Rightarrow> 'a runState \<Rightarrow> nat \<Rightarrow> 'a runState" where
  "settle items fails s r =
     (if r < length (runners s) then
        (case runners s ! r of
           Awaiting idx \<Rightarrow>
             if fails idx then
               s\<lparr>runners := (runners s)[r := Threw idx],
                 outcome := (if outcome s = Pending then Rejected idx else outcome s)\<rparr>
             else
               (let idx' = nextIdx s in
                if idx' \<ge> length items then
                  s\<lparr>nextIdx := idx' + 1,
                    runners := (runners s)[r := Returned],
                    fulfilled := fulfilled s @ [idx],
                    outcome :=
                      (if outcome s = Pending \<and>
                          (\<forall>q \<in> set ((runners s)[r := Returned]). q = Returned)
                       then Resolved else outcome s)\<rparr>
                else
                  s\<lparr>nextIdx := idx' + 1,
                    runners := (runners s)[r := Awaiting idx'],
                    calls := calls s @ [(items ! idx', idx')],
                    fulfilled := fulfilled s @ [idx]\<rparr>)
         | Returned \<Rightarrow> s
         | Threw idx \<Rightarrow> s)
      else s)"

text \<open>The state after the promises awaited by the runners \<open>schedule\<close> have settled, in that
  order.\<close>

definition runWithConcurrency ::
  "'a list \<Rightarrow> real \<Rightarrow> (nat \<Rightarrow> bool) \<Rightarrow> nat list \<Rightarrow> 'a runState" where
  "runWithConcurrency items limit fails schedule =
     foldl (settle items fails) (startRun items limit) schedule"

text \<open>The number of invocations of \<open>worker\<close> in flight: the runners that are awaiting one.\<close>

fun isAwaiting :: "runner \<Rightarrow> bool" where
  "isAwaiting (Awaiting idx) = True"
| "isAwaiting q = False"

definition inFlight :: "'a runState \<Rightarrow> nat" where
  "inFlight s = length (filter isAwaiting (runners s))"

text \<open>What holds in every state of a run over \<open>items\<close> with \<open>m\<close> runners.\<close>

definition runInv :: "'a list \<Rightarrow> (nat \<Rightarrow> bool) \<Rightarrow> nat \<Rightarrow> 'a runState \<Rightarrow> bool" where
  "runInv items fails m s \<longleftrightarrow>
     calls s = map (\<lambda>i. (items ! i, i)) [0..<min (nextIdx s) (length items)] \<and>
     length (runners s) = m \<and>
     (\<forall>idx. Awaiting idx \<in> set (runners s) \<longrightarrow> idx < min (nextIdx s) (length items)) \<and>
     (\<forall>idx. Threw idx \<in> set (runners s) \<longrightarrow> fails idx \<and> idx < min (nextIdx s) (length items)) \<and>
     (\<forall>i \<in> set (fulfilled s). \<not> fails i \<and> i < min (nextIdx s) (length items)) \<and>
     (\<forall>i < min (nextIdx s) (length items).
        Awaiting i \<in> set (runners s) \<or> Threw i \<in> set (runners s) \<or> i \<in> set (fulfilled s)) \<and>
     (Returned \<in> set (runners s) \<longrightarrow> length items < nextIdx s) \<and>
     (outcome s = Resolved \<longrightarrow> (\<forall>q \<in> set (runners s). q = Returned)) \<and>
     (\<forall>i. outcome s = Rejected i \<longrightarrow> fails i \<and> i < min (nextIdx s) (length items))"

lemma in_set_update_other:
  assumes "x \<in> set xs" and "x \<noteq> xs ! r"
  shows "x \<in> set (xs[r := v])"
proof -
  from assms(1) obtain i where i: "i < length xs" "xs ! i = x"
    by (auto simp: in_set_conv_nth)
  with assms(2) have "i \<noteq> r" by auto
  with i have "xs[r := v] ! i = x" "i < length (xs[r := v])" by simp_all
  then show ?thesis using nth_mem by blast
qed

lemma in_set_update_cases:
  "x \<in> set (xs[r := v]) \<Longrightarrow> x = v \<or> x \<in> set xs"
  using set_update_subset_insert[of xs r v] by auto

lemma runInvI:
  assumes "calls s = map (\<lambda>i. (items ! i, i)) [0..<min (nextIdx s) (length items)]"
    and "length (runners s) = m"
    and "\<And>idx. Awaiting idx \<in> set (runners s) \<Longrightarrow> idx < min (nextIdx s) (length items)"
    and "\<And>idx. Threw idx \<in> set (runners s) \<Longrightarrow> fails idx \<and> idx < min (nextIdx s) (length items)"
    and "\<And>i. i \<in> set (fulfilled s) \<Longrightarrow> \<not> fails i \<and> i < min (nextIdx s) (length items)"
    and "\<And>i. i < min (nextIdx s) (length items) \<Longrightarrow>
        Awaiting i \<in> set (runners s) \<or> Threw i \<in> set (runners s) \<or> i \<in> set (fulfilled s)"
    and "Returned \<in> set (runners s) \<Longrightarrow> length items < nextIdx s"
    and "outcome s = Resolved \<Longrightarrow> (\<forall>q \<in> set (runners s). q = Returned)"
    and "\<And>i. outcome s = Rejected i \<Longrightarrow> fails i \<and> i < min (nextIdx s) (length items)"
  shows "runInv items fails m s"
  unfolding runInv_def using assms by blast

lemma runInv_start: "runInv items fails (min (concurrencyOf limit) (length items)) (startRun items limit)"
  by (auto simp: runInv_def startRun_def Let_def)

lemma runInv_settle:
  assumes inv: "runInv items fails m s"
  shows "runInv items fails m (settle items fails s r)"
proof (cases "r < length (runners s)")
  case False
  with inv show ?thesis by (simp add: settle_def)
next
  case r: True
  show ?thesis
  proof (cases "runners s ! r")
    case Returned
    with inv r show ?thesis by (simp add: settle_def)
  next
    case (Threw idx)
    with inv r show ?thesis by (simp add: settle_def)
  next
    case (Awaiting idx)
    from r Awaiting have mem: "Awaiting idx \<in> set (runners s)"
      using nth_mem[of r "runners s"] by simp
    let ?n = "min (nextIdx s) (length items)"
    from inv have
      P1: "calls s = map (\<lambda>i. (items ! i, i)) [0..<?n]" and
      P2: "length (runners s) = m" and
      P3: "\<And>j. Awaiting j \<in> set (runners s) \<Longrightarrow> j < ?n" and
      P4: "\<And>j. Threw j \<in> set (runners s) \<Longrightarrow> fails j \<and> j < ?n" and
      P5: "\<And>i. i \<in> set (fulfilled s) \<Longrightarrow> \<not> fails i \<and> i < ?n" and
      P6: "\<And>i. i < ?n \<Longrightarrow>
        Awaiting i \<in> set (runners s) \<or> Threw i \<in> set (runners s) \<or> i \<in> set (fulfilled s)" and
      P7: "Returned \<in> set (runners s) \<Longrightarrow> length items < nextIdx s" and
      P8: "outcome s = Resolved \<Longrightarrow> (\<forall>q \<in> set (runners s). q = Returned)" and
      P9: "\<And>i. outcome s = Rejected i \<Longrightarrow> fails i \<and> i < ?n"
      unfolding runInv_def by blast+
    from P3[OF mem] have idx: "idx < ?n" .
    from P8 mem have notres: "outcome s \<noteq> Resolved" by auto
    show ?thesis
    proof (cases "fails idx")
      case True
      let ?rs = "(runners s)[r := Threw idx]"
      have eq: "settle items fails s r =
          s\<lparr>runners := ?rs, outcome := (if outcome s = Pending then Rejected idx else outcome s)\<rparr>"
        using r Awaiting True by (simp add: settle_def)
      have thr: "Threw idx \<in> set ?rs" using r by (simp add: set_update_memI)
      have A: "\<And>j. Awaiting j \<in> set ?rs \<Longrightarrow> j < ?n"
        using P3 in_set_update_cases[of _ "runners s" r "Threw idx"] by blast
      have T: "\<And>j. Threw j \<in> set ?rs \<Longrightarrow> fails j \<and> j < ?n"
        using P4 True idx in_set_update_cases[of _ "runners s" r "Threw idx"] by blast
      have C: "\<And>i. i < ?n \<Longrightarrow> Awaiting i \<in> set ?rs \<or> Threw i \<in> set ?rs \<or> i \<in> set (fulfilled s)"
      proof -
        fix i assume "i < ?n"
        from P6[OF this] consider "Awaiting i \<in> set (runners s)" "i \<noteq> idx"
          | "i = idx" | "Threw i \<in> set (runners s)" | "i \<in> set (fulfilled s)" by blast
        then show "Awaiting i \<in> set ?rs \<or> Threw i \<in> set ?rs \<or> i \<in> set (fulfilled s)"
        proof cases
          case 1
          then have "Awaiting i \<in> set ?rs" using Awaiting by (intro in_set_update_other) auto
          then show ?thesis by simp
        next
          case 2
          with thr show ?thesis by simp
        next
          case 3
          then have "Threw i \<in> set ?rs" using Awaiting by (intro in_set_update_other) auto
          then show ?thesis by simp
        next
          case 4
          then show ?thesis by simp
        qed
      qed
      have R: "Returned \<in> set ?rs \<Longrightarrow> length items < nextIdx s"
        using P7 in_set_update_cases[of Returned "runners s" r "Threw idx"] by blast
      have O8: "(if outcome s = Pending then Rejected idx else outcome s) \<noteq> Resolved"
        using notres by simp
      have O9: "\<And>i. (if outcome s = Pending then Rejected idx else outcome s) = Rejected i
          \<Longrightarrow> fails i \<and> i < ?n"
        using P9 True idx by (auto split: if_splits)
      show ?thesis
        unfolding eq
      proof (rule runInvI)
        show "outcome (s\<lparr>runners := ?rs,
              outcome := (if outcome s = Pending then Rejected idx else outcome s)\<rparr>) = Resolved
            \<Longrightarrow> (\<forall>q \<in> set (runners (s\<lparr>runners := ?rs,
              outcome := (if outcome s = Pending then Rejected idx else outcome s)\<rparr>)). q = Returned)"
          using O8 by simp
        show "\<And>i. outcome (s\<lparr>runners := ?rs,
              outcome := (if outcome s = Pending then Rejected idx else outcome s)\<rparr>) = Rejected i
            \<Longrightarrow> fails i \<and> i < min (nextIdx (s\<lparr>runners := ?rs,
              outcome := (if outcome s = Pending then Rejected idx else outcome s)\<rparr>)) (length items)"
          using O9 by simp
      qed (use P1 P2 P5 A T C R in simp_all)
    next
      case ok: False
      show ?thesis
      proof (cases "nextIdx s \<ge> length items")
        case True
        let ?rs = "(runners s)[r := Returned]"
        let ?o = "if outcome s = Pending \<and> (\<forall>q \<in> set ?rs. q = Returned) then Resolved else outcome s"
        have eq: "settle items fails s r =
            s\<lparr>nextIdx := nextIdx s + 1, runners := ?rs, fulfilled := fulfilled s @ [idx],
              outcome := ?o\<rparr>"
          using r Awaiting ok True by (simp add: settle_def Let_def)
        have n: "min (nextIdx s + 1) (length items) = ?n" using True by simp
        have A: "\<And>j. Awaiting j \<in> set ?rs \<Longrightarrow> j < ?n"
          using P3 in_set_update_cases[of _ "runners s" r Returned] by blast
        have T: "\<And>j. Threw j \<in> set ?rs \<Longrightarrow> fails j \<and> j < ?n"
          using P4 in_set_update_cases[of _ "runners s" r Returned] by blast
        have F: "\<And>i. i \<in> set (fulfilled s @ [idx]) \<Longrightarrow> \<not> fails i \<and> i < ?n"
          using P5 ok idx by auto
        have C: "\<And>i. i < ?n \<Longrightarrow>
            Awaiting i \<in> set ?rs \<or> Threw i \<in> set ?rs \<or> i \<in> set (fulfilled s @ [idx])"
        proof -
          fix i assume "i < ?n"
          from P6[OF this] consider "Awaiting i \<in> set (runners s)" "i \<noteq> idx"
            | "i = idx" | "Threw i \<in> set (runners s)" | "i \<in> set (fulfilled s)" by blast
          then show "Awaiting i \<in> set ?rs \<or> Threw i \<in> set ?rs \<or> i \<in> set (fulfilled s @ [idx])"
          proof cases
            case 1
            then have "Awaiting i \<in> set ?rs" using Awaiting by (intro in_set_update_other) auto
            then show ?thesis by simp
          next
            case 2
            then show ?thesis by simp
          next
            case 3
            then have "Threw i \<in> set ?rs" using Awaiting by (intro in_set_update_other) auto
            then show ?thesis by simp
          next
            case 4
            then show ?thesis by simp
          qed
        qed
        have R: "length items < nextIdx s + 1" using True by simp
        have O8: "?o = Resolved \<Longrightarrow> (\<forall>q \<in> set ?rs. q = Returned)"
          using notres by (auto split: if_splits)
        have O9: "\<And>i. ?o = Rejected i \<Longrightarrow> fails i \<and> i < ?n"
          using P9 by (auto split: if_splits)
        define o' where "o' = ?o"
        have O8': "o' = Resolved \<Longrightarrow> (\<forall>q \<in> set ?rs. q = Returned)"
          using O8 unfolding o'_def .
        have O9': "\<And>i. o' = Rejected i \<Longrightarrow> fails i \<and> i < ?n"
          using O9 unfolding o'_def .
        have eq': "settle items fails s r =
            s\<lparr>nextIdx := nextIdx s + 1, runners := ?rs, fulfilled := fulfilled s @ [idx],
              outcome := o'\<rparr>"
          unfolding eq o'_def ..
        show ?thesis
          unfolding eq'
        proof (rule runInvI)
          show "calls (s\<lparr>nextIdx := nextIdx s + 1, runners := ?rs,
                fulfilled := fulfilled s @ [idx], outcome := o'\<rparr>)
              = map (\<lambda>i. (items ! i, i)) [0..<min (nextIdx (s\<lparr>nextIdx := nextIdx s + 1,
                runners := ?rs, fulfilled := fulfilled s @ [idx], outcome := o'\<rparr>)) (length items)]"
            using P1 n by simp
        qed (use P2 n A T F C R O8' O9' in simp_all)
      next
        case False
        let ?i' = "nextIdx s"
        let ?rs = "(runners s)[r := Awaiting ?i']"
        have eq: "settle items fails s r =
            s\<lparr>nextIdx := ?i' + 1, runners := ?rs, calls := calls s @ [(items ! ?i', ?i')],
              fulfilled := fulfilled s @ [idx]\<rparr>"
          using r Awaiting ok False by (simp add: settle_def Let_def)
        from False have lt: "?i' < length items" by simp
        then have n: "?n = ?i'" and n': "min (?i' + 1) (length items) = ?i' + 1" by simp_all
        have aw: "Awaiting ?i' \<in> set ?rs" using r by (simp add: set_update_memI)
        have cs: "calls s @ [(items ! ?i', ?i')] = map (\<lambda>i. (items ! i, i)) [0..<?i' + 1]"
          using P1 n by simp
        have A: "\<And>j. Awaiting j \<in> set ?rs \<Longrightarrow> j < ?i' + 1"
          using P3 n in_set_update_cases[of _ "runners s" r "Awaiting ?i'"] by fastforce
        have T: "\<And>j. Threw j \<in> set ?rs \<Longrightarrow> fails j \<and> j < ?i' + 1"
          using P4 n in_set_update_cases[of _ "runners s" r "Awaiting ?i'"] by fastforce
        have F: "\<And>i. i \<in> set (fulfilled s @ [idx]) \<Longrightarrow> \<not> fails i \<and> i < ?i' + 1"
          using P5 ok idx n by fastforce
        have C: "\<And>i. i < ?i' + 1 \<Longrightarrow>
            Awaiting i \<in> set ?rs \<or> Threw i \<in> set ?rs \<or> i \<in> set (fulfilled s @ [idx])"
        proof -
          fix i assume i: "i < ?i' + 1"
          show "Awaiting i \<in> set ?rs \<or> Threw i \<in> set ?rs \<or> i \<in> set (fulfilled s @ [idx])"
          proof (cases "i = ?i'")
            case True
            with aw show ?thesis by simp
          next
            case False
            with i n have "i < ?n" by simp
            from P6[OF this] consider "Awaiting i \<in> set (runners s)" "i \<noteq> idx"
              | "i = idx" | "Threw i \<in> set (runners s)" | "i \<in> set (fulfilled s)" by blast
            then show ?thesis
            proof cases
              case 1
              then have "Awaiting i \<in> set ?rs" using Awaiting by (intro in_set_update_other) auto
              then show ?thesis by simp
            next
              case 2
              then show ?thesis by simp
            next
              case 3
              then have "Threw i \<in> set ?rs" using Awaiting by (intro in_set_update_other) auto
              then show ?thesis by simp
            next
              case 4
              then show ?thesis by simp
            qed
          qed
        qed
        have R: "Returned \<in> set ?rs \<Longrightarrow> length items < ?i' + 1"
          using P7 in_set_update_cases[of Returned "runners s" r "Awaiting ?i'"] by fastforce
        have O8: "outcome s = Resolved \<Longrightarrow> (\<forall>q \<in> set ?rs. q = Returned)"
          using notres by simp
        have O9: "\<And>i. outcome s = Rejected i \<Longrightarrow> fails i \<and> i < ?i' + 1"
          using P9 n by fastforce
        show ?thesis
          unfolding eq
        proof (rule runInvI)
          show "calls (s\<lparr>nextIdx := ?i' + 1, runners := ?rs,
                calls := calls s @ [(items ! ?i', ?i')], fulfilled := fulfilled s @ [idx]\<rparr>)
              = map (\<lambda>i. (items ! i, i)) [0..<min (nextIdx (s\<lparr>nextIdx := ?i' + 1,
                runners := ?rs, calls := calls s @ [(items ! ?i', ?i')],
                fulfilled := fulfilled s @ [idx]\<rparr>)) (length items)]"
            using cs n' by simp
        qed (use P2 n' A T F C R O8 O9 in simp_all)
      qed
    qed
  qed
qed

lemma runInv_run:
  "runInv items fails (min (concurrencyOf limit) (length items))
     (runWithConcurrency items limit fails schedule)"
proof -
  have "runInv items fails m s \<Longrightarrow> runInv items fails m (foldl (settle items fails) s schedule)"
    for m and s :: "'a runState"
    by (induction schedule arbitrary: s) (simp_all add: runInv_settle)
  then show ?thesis
    unfolding runWithConcurrency_def using runInv_start by blast
qed

lemma inFlight_le: "inFlight s \<le> length (runners s)"
  by (simp add: inFlight_def)

lemma concurrencyOf_le: "1 \<le> limit \<Longrightarrow> real (concurrencyOf limit) \<le> limit"
proof -
  assume l: "1 \<le> limit"
  then have "1 \<le> \<lfloor>limit\<rfloor>" by linarith
  then have "real (concurrencyOf limit) = of_int \<lfloor>limit\<rfloor>"
    by (simp add: concurrencyOf_def max_def)
  then show ?thesis by simp
qed

lemma concurrencyOf_pos: "0 < concurrencyOf limit"
  by (simp add: concurrencyOf_def max_def)

lemma failing_single_runner:
  "foldl (settle [''a'', ''b''] (\<lambda>idx. idx = 0)) (startRun [''a'', ''b''] 1) schedule
     \<in> {\<lparr>nextIdx = 1, runners = [Awaiting 0], calls = [(''a'', 0)], fulfilled = [],
          outcome = Pending\<rparr>,
        \<lparr>nextIdx = 1, runners = [Threw 0], calls = [(''a'', 0)], fulfilled = [],
          outcome = Rejected 0\<rparr>}"
proof -
  let ?items = "[''a'', ''b'']"
  let ?fails = "\<lambda>idx :: nat. idx = 0"
  let ?s0 = "\<lparr>nextIdx = 1, runners = [Awaiting 0], calls = [(''a'', 0 :: nat)], fulfilled = [],
          outcome = Pending\<rparr>"
  let ?s1 = "\<lparr>nextIdx = 1, runners = [Threw 0], calls = [(''a'', 0 :: nat)], fulfilled = [],
          outcome = Rejected 0\<rparr>"
  have start: "startRun ?items 1 = ?s0"
    by (simp add: startRun_def concurrencyOf_def)
  have step0: "settle ?items ?fails ?s0 r \<in> {?s0, ?s1}" for r
    by (cases "r = 0") (simp_all add: settle_def)
  have step1: "settle ?items ?fails ?s1 r = ?s1" for r
    by (cases "r = 0") (simp_all add: settle_def)
  have "s \<in> {?s0, ?s1} \<Longrightarrow> foldl (settle ?items ?fails) s schedule \<in> {?s0, ?s1}" for s
  proof (induction schedule arbitrary: s)
    case Nil
    then show ?case by simp
  next
    case (Cons r schedule)
    from Cons.prems step0[of r] step1[of r] have "settle ?items ?fails s r \<in> {?s0, ?s1}"
      by auto
    from Cons.IH[OF this] show ?case by simp
  qed
  then show ?thesis unfolding start by blast
qed

text \<open>
  C6, as stated, fails: with limit 1, two items and a worker whose promise for the first
  item is rejected, the call is rejected and, whatever settles afterwards, the worker is
  never called for the second item.
\<close>

theorem second_item_never_invoked:
  "(\<forall>schedule. calls (runWithConcurrency [''a'', ''b''] 1 (\<lambda>idx. idx = 0) schedule)
      = [(''a'', 0)]) \<and>
   outcome (runWithConcurrency [''a'', ''b''] 1 (\<lambda>idx. idx = 0) [0]) = Rejected 0"
proof
  show "\<forall>schedule. calls (runWithConcurrency [''a'', ''b''] 1 (\<lambda>idx. idx = 0) schedule)
      = [(''a'', 0)]"
  proof
    fix schedule
    from failing_single_runner[of schedule]
    show "calls (runWithConcurrency [''a'', ''b''] 1 (\<lambda>idx. idx = 0) schedule) = [(''a'', 0)]"
      unfolding runWithConcurrency_def by auto
  qed
  show "outcome (runWithConcurrency [''a'', ''b''] 1 (\<lambda>idx. idx = 0) [0]) = Rejected 0"
    by (simp add: runWithConcurrency_def startRun_def concurrencyOf_def settle_def)
qed

text \<open>While the call is pending no runner has thrown and at least one is awaiting.\<close>

definition pendingInv :: "'a runState \<Rightarrow> bool" where
  "pendingInv s \<longleftrightarrow>
     (outcome s = Pending \<longrightarrow>
        (\<forall>idx. Threw idx \<notin> set (runners s)) \<and> (\<exists>idx. Awaiting idx \<in> set (runners s)))"

lemma pendingInv_start: "pendingInv (startRun items limit)"
proof (cases "min (concurrencyOf limit) (length items) = 0")
  case True
  then show ?thesis by (simp add: pendingInv_def startRun_def Let_def)
next
  case False
  then have "Awaiting 0 \<in> set (map Awaiting [0..<min (concurrencyOf limit) (length items)])"
    by auto
  then show ?thesis by (auto simp: pendingInv_def startRun_def Let_def)
qed

lemma pendingInv_settle:
  assumes inv: "pendingInv s"
  shows "pendingInv (settle items fails s r)"
proof (cases "r < length (runners s)")
  case False
  with inv show ?thesis by (simp add: settle_def)
next
  case r: True
  show ?thesis
  proof (cases "runners s ! r")
    case Returned
    with inv r show ?thesis by (simp add: settle_def)
  next
    case (Threw idx)
    with inv r show ?thesis by (simp add: settle_def)
  next
    case (Awaiting idx)
    show ?thesis
    proof (cases "fails idx")
      case True
      then have "outcome (settle items fails s r) \<noteq> Pending"
        using r Awaiting by (simp add: settle_def)
      then show ?thesis by (simp add: pendingInv_def)
    next
      case ok: False
      show ?thesis
      proof (cases "nextIdx s \<ge> length items")
        case True
        let ?rs = "(runners s)[r := Returned]"
        have rs: "runners (settle items fails s r) = ?rs"
          using r Awaiting ok True by (simp add: settle_def Let_def)
        have oc: "outcome (settle items fails s r) =
            (if outcome s = Pending \<and> (\<forall>q \<in> set ?rs. q = Returned) then Resolved else outcome s)"
          using r Awaiting ok True by (simp add: settle_def Let_def)
        show ?thesis
          unfolding pendingInv_def rs
        proof (intro impI conjI allI)
          assume p: "outcome (settle items fails s r) = Pending"
          with oc have ps: "outcome s = Pending" and ex: "\<not> (\<forall>q \<in> set ?rs. q = Returned)"
            by (auto split: if_splits)
          from inv ps have nothrew: "\<And>j. Threw j \<notin> set (runners s)"
            by (simp add: pendingInv_def)
          show "Threw j \<notin> set ?rs" for j
            using nothrew[of j] in_set_update_cases[of "Threw j" "runners s" r Returned] by auto
          from ex obtain q where q: "q \<in> set ?rs" "q \<noteq> Returned" by blast
          with in_set_update_cases[of q "runners s" r Returned] have "q \<in> set (runners s)" by auto
          with nothrew q(2) obtain j where "q = Awaiting j" by (cases q) auto
          with q(1) show "\<exists>j. Awaiting j \<in> set ?rs" by blast
        qed
      next
        case False
        let ?rs = "(runners s)[r := Awaiting (nextIdx s)]"
        have rs: "runners (settle items fails s r) = ?rs"
          using r Awaiting ok False by (simp add: settle_def Let_def)
        have oc: "outcome (settle items fails s r) = outcome s"
          using r Awaiting ok False by (simp add: settle_def Let_def)
        show ?thesis
          unfolding pendingInv_def rs oc
        proof (intro impI conjI allI)
          assume ps: "outcome s = Pending"
          from inv ps have nothrew: "\<And>j. Threw j \<notin> set (runners s)"
            by (simp add: pendingInv_def)
          show "Threw j \<notin> set ?rs" for j
            using nothrew[of j] in_set_update_cases[of "Threw j" "runners s" r "Awaiting (nextIdx s)"]
            by auto
          have "Awaiting (nextIdx s) \<in> set ?rs" using r by (simp add: set_update_memI)
          then show "\<exists>j. Awaiting j \<in> set ?rs" by blast
        qed
      qed
    qed
  qed
qed

lemma pendingInv_run: "pendingInv (runWithConcurrency items limit fails schedule)"
proof -
  have "pendingInv s \<Longrightarrow> pendingInv (foldl (settle items fails) s schedule)"
    for s :: "'a runState"
    by (induction schedule arbitrary: s) (simp_all add: pendingInv_settle)
  then show ?thesis
    unfolding runWithConcurrency_def using pendingInv_start by blast
qed

text \<open>
  Every promise in flight can settle, and a settlement brings the run closer to its
  end: it lowers the number of items not yet taken plus the number of calls in flight.
\<close>

definition workLeft :: "'a list \<Rightarrow> 'a runState \<Rightarrow> nat" where
  "workLeft items s = (length items - min (nextIdx s) (length items)) + inFlight s"

lemma length_filter_update:
  "r < length xs \<Longrightarrow>
   length (filter P (xs[r := v])) + (if P (xs ! r) then 1 else 0)
     = length (filter P xs) + (if P v then 1 else 0)"
proof (induction xs arbitrary: r)
  case Nil
  then show ?case by simp
next
  case (Cons x xs)
  show ?case
  proof (cases r)
    case 0
    then show ?thesis by simp
  next
    case (Suc r')
    with Cons.prems have "r' < length xs" by simp
    from Cons.IH[OF this] Suc show ?thesis by simp
  qed
qed

lemma inFlight_pos:
  assumes "0 < inFlight s"
  shows "\<exists>r idx. r < length (runners s) \<and> runners s ! r = Awaiting idx"
proof -
  from assms have "filter isAwaiting (runners s) \<noteq> []" by (simp add: inFlight_def)
  then obtain q where q: "q \<in> set (runners s)" "isAwaiting q"
    by (auto simp: filter_empty_conv)
  from q(2) obtain idx where "q = Awaiting idx" by (cases q) auto
  with q(1) show ?thesis by (auto simp: in_set_conv_nth)
qed

lemma settle_workLeft:
  assumes r: "r < length (runners s)" and a: "runners s ! r = Awaiting idx"
  shows "workLeft items (settle items fails s r) + 1 = workLeft items s"
proof -
  have aw: "isAwaiting (runners s ! r)" using a by simp
  show ?thesis
  proof (cases "fails idx")
    case True
    have rs: "runners (settle items fails s r) = (runners s)[r := Threw idx]"
      and nx: "nextIdx (settle items fails s r) = nextIdx s"
      using r a True by (simp_all add: settle_def)
    from length_filter_update[OF r, of isAwaiting "Threw idx"] aw
    have "inFlight (settle items fails s r) + 1 = inFlight s"
      by (simp add: inFlight_def rs)
    then show ?thesis by (simp add: workLeft_def nx)
  next
    case ok: False
    show ?thesis
    proof (cases "nextIdx s \<ge> length items")
      case True
      have rs: "runners (settle items fails s r) = (runners s)[r := Returned]"
        and nx: "nextIdx (settle items fails s r) = nextIdx s + 1"
        using r a ok True by (simp_all add: settle_def Let_def)
      from length_filter_update[OF r, of isAwaiting Returned] aw
      have "inFlight (settle items fails s r) + 1 = inFlight s"
        by (simp add: inFlight_def rs)
      then show ?thesis using True by (simp add: workLeft_def nx)
    next
      case False
      have rs: "runners (settle items fails s r) = (runners s)[r := Awaiting (nextIdx s)]"
        and nx: "nextIdx (settle items fails s r) = nextIdx s + 1"
        using r a ok False by (simp_all add: settle_def Let_def)
      from length_filter_update[OF r, of isAwaiting "Awaiting (nextIdx s)"] aw
      have "inFlight (settle items fails s r) = inFlight s"
        by (simp add: inFlight_def rs)
      then show ?thesis using False by (simp add: workLeft_def nx)
    qed
  qed
qed

lemma run_completes:
  "\<exists>more. length more \<le> workLeft items s \<and>
          inFlight (foldl (settle items fails) s more) = 0"
proof (induction "workLeft items s" arbitrary: s)
  case 0
  then have "inFlight s = 0" by (simp add: workLeft_def)
  then have "length [] \<le> workLeft items s \<and> inFlight (foldl (settle items fails) s []) = 0"
    by simp
  then show ?case by blast
next
  case (Suc n)
  show ?case
  proof (cases "inFlight s = 0")
    case True
    then have "length [] \<le> workLeft items s \<and> inFlight (foldl (settle items fails) s []) = 0"
      by simp
    then show ?thesis by blast
  next
    case False
    then obtain r idx where r: "r < length (runners s)" "runners s ! r = Awaiting idx"
      using inFlight_pos[of s] by auto
    from settle_workLeft[OF r, of items fails] Suc(2)
    have "n = workLeft items (settle items fails s r)" by simp
    from Suc(1)[OF this] obtain more where
      m: "length more \<le> workLeft items (settle items fails s r)"
         "inFlight (foldl (settle items fails) (settle items fails s r) more) = 0"
      by blast
    have "length (r # more) \<le> workLeft items s \<and>
          inFlight (foldl (settle items fails) s (r # more)) = 0"
      using m settle_workLeft[OF r, of items fails] by simp
    then show ?thesis by blast
  qed
qed

text \<open>
  C6, amended. For every list of items, every limit of at least 1, every worker and every
  order in which its promises settle: the worker is called at most once per item, in the
  order of the indices and with the item and its index, and at most \<open>limit\<close> calls are in
  flight. The call is fulfilled only when the worker has been called for every item and
  every one of these promises has been fulfilled, it is rejected only with a call of the
  worker that has failed, and it is no longer pending once nothing is in flight. When no
  call of the worker fails and nothing is in flight, the worker has been called exactly
  once for every item and the call is fulfilled. From every state the promises in flight
  can settle until none is left, in at most as many settlements as there are items not
  yet taken and calls in flight. (When a call of the worker fails, the items not yet
  taken by another runner are never passed to the worker.)
\<close>

theorem runWithConcurrency_bounded:
  assumes "1 \<le> limit" and "s = runWithConcurrency items limit fails schedule"
  shows "calls s = map (\<lambda>i. (items ! i, i)) [0..<length (calls s)] \<and>
         length (calls s) \<le> length items \<and>
         real (inFlight s) \<le> limit \<and>
         (outcome s = Resolved \<longrightarrow>
            length (calls s) = length items \<and> inFlight s = 0 \<and>
            (\<forall>i < length items. i \<in> set (fulfilled s) \<and> \<not> fails i)) \<and>
         (\<forall>i. outcome s = Rejected i \<longrightarrow> fails i \<and> i < length (calls s)) \<and>
         (inFlight s = 0 \<longrightarrow> outcome s \<noteq> Pending) \<and>
         ((\<forall>i < length items. \<not> fails i) \<and> inFlight s = 0 \<longrightarrow>
            calls s = map (\<lambda>i. (items ! i, i)) [0..<length items] \<and> outcome s = Resolved) \<and>
         (\<exists>more. length more \<le> workLeft items s \<and>
            inFlight (runWithConcurrency items limit fails (schedule @ more)) = 0)"
proof -
  let ?m = "min (concurrencyOf limit) (length items)"
  let ?n = "min (nextIdx s) (length items)"
  have inv: "runInv items fails ?m s" unfolding assms(2) by (rule runInv_run)
  then have
    P1: "calls s = map (\<lambda>i. (items ! i, i)) [0..<?n]" and
    P2: "length (runners s) = ?m" and
    P5: "\<And>i. i \<in> set (fulfilled s) \<Longrightarrow> \<not> fails i \<and> i < ?n" and
    P6: "\<And>i. i < ?n \<Longrightarrow>
      Awaiting i \<in> set (runners s) \<or> Threw i \<in> set (runners s) \<or> i \<in> set (fulfilled s)" and
    P7: "Returned \<in> set (runners s) \<Longrightarrow> length items < nextIdx s" and
    P8: "outcome s = Resolved \<Longrightarrow> (\<forall>q \<in> set (runners s). q = Returned)" and
    P9: "\<And>i. outcome s = Rejected i \<Longrightarrow> fails i \<and> i < ?n"
    unfolding runInv_def by blast+
  have pend: "pendingInv s" unfolding assms(2) by (rule pendingInv_run)
  from P1 have len: "length (calls s) = ?n" by simp
  have c1: "calls s = map (\<lambda>i. (items ! i, i)) [0..<length (calls s)]"
    using P1 len by simp
  have c2: "length (calls s) \<le> length items" using len by simp
  have "inFlight s \<le> concurrencyOf limit" using inFlight_le[of s] P2 by simp
  then have "real (inFlight s) \<le> real (concurrencyOf limit)" by simp
  with concurrencyOf_le[OF assms(1)] have c3: "real (inFlight s) \<le> limit" by simp
  have c4: "length (calls s) = length items \<and> inFlight s = 0 \<and>
            (\<forall>i < length items. i \<in> set (fulfilled s) \<and> \<not> fails i)"
    if res: "outcome s = Resolved"
  proof -
    from P8[OF res] have allret: "\<forall>q \<in> set (runners s). q = Returned" .
    then have "filter isAwaiting (runners s) = []" by (auto simp: filter_empty_conv)
    then have fl: "inFlight s = 0" by (simp add: inFlight_def)
    have full: "?n = length items"
    proof (cases "runners s = []")
      case True
      with P2 have "?m = 0" by simp
      with concurrencyOf_pos[of limit] have "length items = 0" by (simp add: min_def split: if_splits)
      then show ?thesis by simp
    next
      case False
      then obtain q where "q \<in> set (runners s)" by (cases "runners s") auto
      with allret have "Returned \<in> set (runners s)" by auto
      from P7[OF this] show ?thesis by simp
    qed
    have "i \<in> set (fulfilled s) \<and> \<not> fails i" if "i < length items" for i
    proof -
      from that full have "i < ?n" by simp
      from P6[OF this] allret have "i \<in> set (fulfilled s)" by auto
      with P5 show ?thesis by blast
    qed
    with fl full len show ?thesis by simp
  qed
  have c5: "\<forall>i. outcome s = Rejected i \<longrightarrow> fails i \<and> i < length (calls s)"
    using P9 len by simp
  have c6: "outcome s \<noteq> Pending" if fl: "inFlight s = 0"
  proof
    assume "outcome s = Pending"
    with pend obtain idx where "Awaiting idx \<in> set (runners s)"
      by (auto simp: pendingInv_def)
    then have "filter isAwaiting (runners s) \<noteq> []"
      by (auto simp: filter_empty_conv intro!: bexI[of _ "Awaiting idx"])
    with fl show False by (simp add: inFlight_def)
  qed
  have c7: "calls s = map (\<lambda>i. (items ! i, i)) [0..<length items] \<and> outcome s = Resolved"
    if nf: "\<forall>i < length items. \<not> fails i" and fl: "inFlight s = 0"
  proof -
    have "outcome s \<noteq> Rejected i" for i
    proof
      assume "outcome s = Rejected i"
      from P9[OF this] nf show False by auto
    qed
    with c6[OF fl] have res: "outcome s = Resolved" by (cases "outcome s") auto
    from c4[OF res] c1 show ?thesis using res by simp
  qed
  have c8: "\<exists>more. length more \<le> workLeft items s \<and>
      inFlight (runWithConcurrency items limit fails (schedule @ more)) = 0"
    using run_completes[of items s fails]
    unfolding assms(2) runWithConcurrency_def by simp
  from c1 c2 c3 c4 c5 c6 c7 c8 show ?thesis by blast
qed

theorem runWithConcurrency_bounded_witness:
  "(1::real) \<le> 2 \<and>
   outcome (runWithConcurrency [''a'', ''b'', ''c''] 2 (\<lambda>idx. False) [0, 1, 0]) = Resolved \<and>
   calls (runWithConcurrency [''a'', ''b'', ''c''] 2 (\<lambda>idx. False) [0, 1, 0])
     = [(''a'', 0), (''b'', 1), (''c'', 2)] \<and>
   inFlight (runWithConcurrency [''a'', ''b'', ''c''] 2 (\<lambda>idx. False) [0, 1, 0]) = 0 \<and>
   inFlight (runWithConcurrency [''a'', ''b'', ''c''] 2 (\<lambda>idx. False) [0]) = 2 \<and>
   workLeft [''a'', ''b'', ''c''] (runWithConcurrency [''a'', ''b'', ''c''] 2 (\<lambda>idx. False) [0]) = 2 \<and>
   set (fulfilled (runWithConcurrency [''a'', ''b'', ''c''] 2 (\<lambda>idx. False) [0, 1, 0])) = {0, 1, 2} \<and>
   (\<exists>more. length more \<le> 2 \<and>
      inFlight (runWithConcurrency [''a'', ''b'', ''c''] 2 (\<lambda>idx. False) ([0] @ more)) = 0)"
proof -
  let ?s = "runWithConcurrency [''a'', ''b'', ''c''] 2 (\<lambda>idx. False) [0, 1, 0]"
  let ?t = "runWithConcurrency [''a'', ''b'', ''c''] 2 (\<lambda>idx. False) [0]"
  have s: "?s = \<lparr>nextIdx = 5, runners = [Returned, Returned],
      calls = [(''a'', 0), (''b'', 1), (''c'', 2)], fulfilled = [0, 1, 2], outcome = Resolved\<rparr>"
    by (simp add: runWithConcurrency_def startRun_def concurrencyOf_def settle_def upt_rec)
  have t: "?t = \<lparr>nextIdx = 3, runners = [Awaiting 2, Awaiting 1],
      calls = [(''a'', 0), (''b'', 1), (''c'', 2)], fulfilled = [0], outcome = Pending\<rparr>"
    by (simp add: runWithConcurrency_def startRun_def concurrencyOf_def settle_def upt_rec)
  have f: "inFlight ?t = 2" "workLeft [''a'', ''b'', ''c''] ?t = 2"
    unfolding t by (simp_all add: inFlight_def workLeft_def)
  have l: "(1::real) \<le> 2" by simp
  note S = runWithConcurrency_bounded[OF l refl, of "[''a'', ''b'', ''c'']" "\<lambda>idx. False" "[0, 1, 0]"]
  note T = runWithConcurrency_bounded[OF l refl, of "[''a'', ''b'', ''c'']" "\<lambda>idx. False" "[0]"]
  have more: "\<exists>more. length more \<le> 2 \<and>
      inFlight (runWithConcurrency [''a'', ''b'', ''c''] 2 (\<lambda>idx. False) ([0] @ more)) = 0"
    using T[THEN conjunct2, THEN conjunct2, THEN conjunct2, THEN conjunct2, THEN conjunct2,
        THEN conjunct2, THEN conjunct2] f(2) by simp
  from S have "outcome ?s = Resolved \<longrightarrow> inFlight ?s = 0" by blast
  with s f more show ?thesis by (auto simp: inFlight_def)
qed

lemma failing_second_of_three:
  "foldl (settle [''a'', ''b'', ''c''] (\<lambda>idx. idx = 1)) (startRun [''a'', ''b'', ''c''] 1) schedule
     \<in> {\<lparr>nextIdx = 1, runners = [Awaiting 0], calls = [(''a'', 0)], fulfilled = [],
          outcome = Pending\<rparr>,
        \<lparr>nextIdx = 2, runners = [Awaiting 1], calls = [(''a'', 0), (''b'', 1)], fulfilled = [0],
          outcome = Pending\<rparr>,
        \<lparr>nextIdx = 2, runners = [Threw 1], calls = [(''a'', 0), (''b'', 1)], fulfilled = [0],
          outcome = Rejected 1\<rparr>}"
proof -
  let ?items = "[''a'', ''b'', ''c'']"
  let ?fails = "\<lambda>idx :: nat. idx = 1"
  let ?s0 = "\<lparr>nextIdx = 1, runners = [Awaiting 0], calls = [(''a'', 0 :: nat)], fulfilled = [],
          outcome = Pending\<rparr>"
  let ?s1 = "\<lparr>nextIdx = 2, runners = [Awaiting 1], calls = [(''a'', 0 :: nat), (''b'', 1)],
          fulfilled = [0], outcome = Pending\<rparr>"
  let ?s2 = "\<lparr>nextIdx = 2, runners = [Threw 1], calls = [(''a'', 0 :: nat), (''b'', 1)],
          fulfilled = [0], outcome = Rejected 1\<rparr>"
  have start: "startRun ?items 1 = ?s0"
    by (simp add: startRun_def concurrencyOf_def)
  have step0: "settle ?items ?fails ?s0 r \<in> {?s0, ?s1, ?s2}" for r
    by (cases "r = 0") (simp_all add: settle_def)
  have step1: "settle ?items ?fails ?s1 r \<in> {?s0, ?s1, ?s2}" for r
    by (cases "r = 0") (simp_all add: settle_def)
  have step2: "settle ?items ?fails ?s2 r = ?s2" for r
    by (cases "r = 0") (simp_all add: settle_def)
  have "s \<in> {?s0, ?s1, ?s2} \<Longrightarrow> foldl (settle ?items ?fails) s schedule \<in> {?s0, ?s1, ?s2}" for s
  proof (induction schedule arbitrary: s)
    case Nil
    then show ?case by simp
  next
    case (Cons r schedule)
    from Cons.prems step0[of r] step1[of r] step2[of r]
    have "settle ?items ?fails s r \<in> {?s0, ?s1, ?s2}" by auto
    from Cons.IH[OF this] show ?case by simp
  qed
  then show ?thesis unfolding start by blast
qed

text \<open>
  C9, as stated, fails twice. With limit 2 and two items, when the promise for the first
  item is rejected while the second is in flight, the call is rejected at once, with the
  second still in flight. With limit 1 and three items, when the promise for the second
  item is rejected, the worker is never called for the third.
\<close>

theorem rejected_at_once_and_rest_undispatched:
  "outcome (runWithConcurrency [''a'', ''b''] 2 (\<lambda>idx. idx = 0) [0]) = Rejected 0 \<and>
   runners (runWithConcurrency [''a'', ''b''] 2 (\<lambda>idx. idx = 0) [0]) = [Threw 0, Awaiting 1] \<and>
   (\<forall>schedule.
      (''c'', 2) \<notin> set (calls (runWithConcurrency [''a'', ''b'', ''c''] 1 (\<lambda>idx. idx = 1) schedule)))"
proof (intro conjI allI)
  show "outcome (runWithConcurrency [''a'', ''b''] 2 (\<lambda>idx. idx = 0) [0]) = Rejected 0"
    by (simp add: runWithConcurrency_def startRun_def concurrencyOf_def settle_def upt_rec)
  show "runners (runWithConcurrency [''a'', ''b''] 2 (\<lambda>idx. idx = 0) [0]) = [Threw 0, Awaiting 1]"
    by (simp add: runWithConcurrency_def startRun_def concurrencyOf_def settle_def upt_rec)
  fix schedule
  from failing_second_of_three[of schedule]
  show "(''c'', 2) \<notin> set (calls (runWithConcurrency [''a'', ''b'', ''c''] 1 (\<lambda>idx. idx = 1) schedule))"
    unfolding runWithConcurrency_def by auto
qed

text \<open>
  C9, amended. When the promise awaited by a runner is rejected, that runner ends and
  calls the worker no more; \<open>nextIdx\<close>, the calls made so far and every other runner are
  left as they are, so nothing in flight is cancelled; the call is rejected with this
  failure at once if it was still pending, and stays as it was otherwise. A sibling
  whose own promise is fulfilled afterwards still takes the next index and, when an item
  is left, calls the worker for it.
\<close>

theorem failure_ends_only_its_runner:
  assumes "r < length (runners s)" and "runners s ! r = Awaiting idx" and "fails idx"
  shows "runners (settle items fails s r) = (runners s)[r := Threw idx] \<and>
         nextIdx (settle items fails s r) = nextIdx s \<and>
         calls (settle items fails s r) = calls s \<and>
         fulfilled (settle items fails s r) = fulfilled s \<and>
         outcome (settle items fails s r) = (if outcome s = Pending then Rejected idx else outcome s) \<and>
         (\<forall>q j. q < length (runners s) \<and> q \<noteq> r \<and> runners s ! q = Awaiting j \<longrightarrow>
            runners (settle items fails s r) ! q = Awaiting j \<and>
            (\<not> fails j \<and> nextIdx s < length items \<longrightarrow>
               calls (settle items fails (settle items fails s r) q)
                 = calls s @ [(items ! nextIdx s, nextIdx s)]))"
proof -
  let ?s' = "settle items fails s r"
  have eq: "?s' = s\<lparr>runners := (runners s)[r := Threw idx],
      outcome := (if outcome s = Pending then Rejected idx else outcome s)\<rparr>"
    using assms by (simp add: settle_def)
  have sib: "runners ?s' ! q = Awaiting j \<and>
            (\<not> fails j \<and> nextIdx s < length items \<longrightarrow>
               calls (settle items fails ?s' q) = calls s @ [(items ! nextIdx s, nextIdx s)])"
    if q: "q < length (runners s)" "q \<noteq> r" "runners s ! q = Awaiting j" for q j
  proof -
    have a: "runners ?s' ! q = Awaiting j" unfolding eq using q by simp
    have "calls (settle items fails ?s' q) = calls s @ [(items ! nextIdx s, nextIdx s)]"
      if "\<not> fails j" "nextIdx s < length items"
      unfolding eq using q that by (simp add: settle_def Let_def)
    with a show ?thesis by blast
  qed
  from sib show ?thesis unfolding eq by simp
qed

theorem failure_ends_only_its_runner_witness:
  "runners (startRun [''a'', ''b'', ''c''] 2) = [Awaiting 0, Awaiting 1] \<and>
   runners (settle [''a'', ''b'', ''c''] (\<lambda>idx. idx = 0) (startRun [''a'', ''b'', ''c''] 2) 0)
     = [Threw 0, Awaiting 1] \<and>
   outcome (settle [''a'', ''b'', ''c''] (\<lambda>idx. idx = 0) (startRun [''a'', ''b'', ''c''] 2) 0)
     = Rejected 0 \<and>
   calls (settle [''a'', ''b'', ''c''] (\<lambda>idx. idx = 0)
            (settle [''a'', ''b'', ''c''] (\<lambda>idx. idx = 0) (startRun [''a'', ''b'', ''c''] 2) 0) 1)
     = [(''a'', 0), (''b'', 1), (''c'', 2)]"
proof -
  let ?items = "[''a'', ''b'', ''c'']"
  let ?fails = "\<lambda>idx :: nat. idx = 0"
  let ?s = "startRun ?items 2"
  have s: "?s = \<lparr>nextIdx = 2, runners = [Awaiting 0, Awaiting 1],
      calls = [(''a'', 0), (''b'', 1)], fulfilled = [], outcome = Pending\<rparr>"
    by (simp add: startRun_def concurrencyOf_def upt_rec)
  have r: "0 < length (runners ?s)" and a: "runners ?s ! 0 = Awaiting 0" and f: "?fails 0"
    unfolding s by simp_all
  have q: "1 < length (runners ?s) \<and> (1::nat) \<noteq> 0 \<and> runners ?s ! 1 = Awaiting 1"
    and ok: "\<not> ?fails 1 \<and> nextIdx ?s < length ?items"
    unfolding s by simp_all
  from failure_ends_only_its_runner[of 0 ?s 0 ?fails ?items, OF r a f] q ok
  have "calls (settle ?items ?fails (settle ?items ?fails ?s 0) 1)
      = calls ?s @ [(?items ! nextIdx ?s, nextIdx ?s)]"
    and "runners (settle ?items ?fails ?s 0) = (runners ?s)[0 := Threw 0]"
    and "outcome (settle ?items ?fails ?s 0) = (if outcome ?s = Pending then Rejected 0 else outcome ?s)"
    by blast+
  then show ?thesis unfolding s by simp
qed

section \<open>The worker pool\<close>

text \<open>
  \<open>WorkerPool\<close> keeps the table \<open>tasks\<close>, a \<open>Map\<close> from request id to a task object with the
  fields \<open>outDir\<close>, \<open>writeChain\<close>, \<open>resolve\<close> and \<open>reject\<close>. The callbacks that \<open>onMessage\<close>
  attaches to \<open>writeChain\<close> hold on to the task object, and run after the entry may have
  left the table. The model therefore keeps the task objects in a store of their own,
  \<open>objects\<close>, indexed by the request id for which the object was made, and the table as the
  list of its keys in insertion order.

  A task object holds the state of the promise \<open>p\<close> that \<open>process\<close> awaits, on which
  \<open>resolve\<close> and \<open>reject\<close> act, and its \<open>writeChain\<close>: \<open>chainQueue\<close> lists, in the order in
  which they were attached, the callbacks of the chain that have not run to their end, a
  \<open>WriteJob files\<close> for the \<open>async\<close> function that a message of kind \<open>chunk\<close> passes to
  \<open>then\<close> and \<open>Finish\<close> for the pair of callbacks that a message of kind \<open>done\<close> passes to
  \<open>then\<close> and \<open>catch\<close>; \<open>chainError\<close> is \<open>Some e\<close> once a job has failed with \<open>e\<close>, which
  rejects every later promise of the chain with \<open>e\<close>. The table of the source does not say
  to which worker a request was posted; the model records it in the task object, for the
  statements only. The pool is only built with at least one worker
  (\<open>poolSize > 0 ? new WorkerPool(poolSize) : null\<close>).
\<close>

datatype 'e promiseState = Unsettled | Fulfilled | RejectedWith 'e

text \<open>The functions \<open>resolve\<close> and \<open>reject\<close> of a promise settle it only if it is not
  settled yet.\<close>

definition settleAs :: "'e promiseState \<Rightarrow> 'e promiseState \<Rightarrow> 'e promiseState" where
  "settleAs new old = (if old = Unsettled then new else old)"

datatype link = WriteJob "exportFile list" | Finish

record 'e task =
  outDir :: jsstring
  postedTo :: nat
  promise :: "'e promiseState"
  chainError :: "'e option"
  chainQueue :: "link list"

text \<open>The pool: the table, the store of the task objects, the two counters, and the calls
  of \<open>reject\<close> and \<open>resolve\<close> made so far (request id and error, in order).\<close>

record 'e workerPool =
  workerCount :: nat
  nextWorkerIdx :: nat
  nextTaskId :: nat
  tasks :: "nat list"
  objects :: "nat \<Rightarrow> 'e task option"
  rejectCalls :: "(nat \<times> 'e) list"
  resolveCalls :: "nat list"

definition newPool :: "nat \<Rightarrow> 'e workerPool" where
  "newPool count =
     \<lparr>workerCount = count, nextWorkerIdx = 0, nextTaskId = 1, tasks = [], objects = (\<lambda>rid. None),
      rejectCalls = [], resolveCalls = []\<rparr>"

text \<open>The state of the promise of request \<open>rid\<close>; \<open>None\<close> when there is no such request.\<close>

definition promiseOf :: "'e workerPool \<Rightarrow> nat \<Rightarrow> 'e promiseState option" where
  "promiseOf s rid = map_option promise (objects s rid)"

text \<open>\<open>process\<close> up to \<open>w.postMessage(req, ...)\<close>: the request gets the next id, a task
  object with a fulfilled \<open>writeChain\<close> is entered into \<open>tasks\<close>, and the request is posted
  to the next worker in round-robin order.\<close>

definition process :: "jsstring \<Rightarrow> 'e workerPool \<Rightarrow> 'e workerPool" where
  "process dir s =
     (let rid = nextTaskId s; w = nextWorkerIdx s in
      s\<lparr>nextTaskId := rid + 1,
        tasks := (if rid \<in> set (tasks s) then tasks s else tasks s @ [rid]),
        objects := (objects s)(rid \<mapsto>
          \<lparr>outDir = dir, postedTo = w, promise = Unsettled, chainError = None, chainQueue = []\<rparr>),
        nextWorkerIdx := (w + 1) mod workerCount s\<rparr>)"

text \<open>\<open>this.tasks.delete(id); t.reject(e)\<close> and \<open>this.tasks.delete(id); t.resolve()\<close> for the
  task object \<open>t\<close> of request \<open>rid\<close>.\<close>

definition failTask :: "nat \<Rightarrow> 'e \<Rightarrow> 'e workerPool \<Rightarrow> 'e workerPool" where
  "failTask rid e s =
     s\<lparr>tasks := removeAll rid (tasks s),
       objects := (objects s)(rid :=
         map_option (\<lambda>t. t\<lparr>promise := settleAs (RejectedWith e) (promise t)\<rparr>) (objects s rid)),
       rejectCalls := rejectCalls s @ [(rid, e)]\<rparr>"

definition fulfilTask :: "nat \<Rightarrow> 'e workerPool \<Rightarrow> 'e workerPool" where
  "fulfilTask rid s =
     s\<lparr>tasks := removeAll rid (tasks s),
       objects := (objects s)(rid :=
         map_option (\<lambda>t. t\<lparr>promise := settleAs Fulfilled (promise t)\<rparr>) (objects s rid)),
       resolveCalls := resolveCalls s @ [rid]\<rparr>"

text \<open>\<open>onWorkerError(e)\<close>: the loop over the entries of \<open>tasks\<close>.\<close>

definition onWorkerError :: "'e \<Rightarrow> 'e workerPool \<Rightarrow> 'e workerPool" where
  "onWorkerError e s = foldl (\<lambda>s' rid. failTask rid e s') s (tasks s)"

text \<open>The constructor registers, for every worker \<open>w\<close>, the handler
  \<open>w.on('error', (e) => this.onWorkerError(e))\<close>: the event of worker \<open>w\<close> calls
  \<open>onWorkerError\<close> without saying which worker it was.\<close>

definition workerEmitsError :: "nat \<Rightarrow> 'e \<Rightarrow> 'e workerPool \<Rightarrow> 'e workerPool" where
  "workerEmitsError w e s = onWorkerError e s"

text \<open>
  The callbacks of the \<open>writeChain\<close> of request \<open>rid\<close> that can run, given that the chain
  before the first of them is fulfilled (\<open>err = None\<close>) or rejected with \<open>e\<close>
  (\<open>err = Some e\<close>). The callbacks of a \<open>done\<close> run at once: the first one after a fulfilled
  chain, the second one after a rejected chain. A job after a rejected chain is skipped,
  and its promise is rejected with the same error. A job after a fulfilled chain starts,
  and everything behind it waits for it. Promise callbacks are microtasks, which run
  before the next message or file-system event is handled. A rejected chain to which no
  \<open>done\<close> has attached its callbacks yet is an unhandled rejection for the host; what the
  host does with it is not part of the model.
\<close>

fun runChain :: "nat \<Rightarrow> 'e option \<Rightarrow> link list \<Rightarrow> 'e workerPool \<Rightarrow> link list \<times> 'e workerPool" where
  "runChain rid err [] s = ([], s)"
| "runChain rid err (Finish # rest) s =
     runChain rid err rest (case err of None \<Rightarrow> fulfilTask rid s | Some e \<Rightarrow> failTask rid e s)"
| "runChain rid err (WriteJob files # rest) s =
     (case err of None \<Rightarrow> (WriteJob files # rest, s) | Some e \<Rightarrow> runChain rid err rest s)"

definition setChain :: "nat \<Rightarrow> 'e option \<Rightarrow> link list \<Rightarrow> 'e workerPool \<Rightarrow> 'e workerPool" where
  "setChain rid err queue s =
     s\<lparr>objects := (objects s)(rid :=
         map_option (\<lambda>t. t\<lparr>chainError := err, chainQueue := queue\<rparr>) (objects s rid))\<rparr>"

definition advanceChain :: "nat \<Rightarrow> 'e option \<Rightarrow> link list \<Rightarrow> 'e workerPool \<Rightarrow> 'e workerPool" where
  "advanceChain rid err queue s =
     (case runChain rid err queue s of (queue', s') \<Rightarrow> setChain rid err queue' s')"

text \<open>The messages of a worker; the error of a message of kind \<open>error\<close> is
  \<open>new Error(msg.message)\<close>.\<close>

datatype 'e message = Chunk nat "exportFile list" | Done nat | ErrorMsg nat 'e

fun msgId :: "'e message \<Rightarrow> nat" where
  "msgId (Chunk rid files) = rid"
| "msgId (Done rid) = rid"
| "msgId (ErrorMsg rid e) = rid"

text \<open>\<open>onMessage\<close>. A message for a request that is not in the table is dropped. A \<open>chunk\<close>
  appends a job to the \<open>writeChain\<close> of the task object, a \<open>done\<close> appends its two
  callbacks.\<close>

definition onMessage :: "'e message \<Rightarrow> 'e workerPool \<Rightarrow> 'e workerPool" where
  "onMessage msg s =
     (if msgId msg \<notin> set (tasks s) then s
      else case objects s (msgId msg) of
        None \<Rightarrow> s
      | Some t \<Rightarrow>
          (case msg of
             ErrorMsg rid e \<Rightarrow> failTask rid e s
           | Chunk rid files \<Rightarrow> advanceChain rid (chainError t) (chainQueue t @ [WriteJob files]) s
           | Done rid \<Rightarrow> advanceChain rid (chainError t) (chainQueue t @ [Finish]) s))"

text \<open>The job at the head of the \<open>writeChain\<close> of request \<open>rid\<close> ends: \<open>result\<close> is \<open>None\<close>
  when \<open>runWithConcurrency\<close> over the files of the chunk is fulfilled, and \<open>Some e\<close> when it
  is rejected with \<open>e\<close>.\<close>

definition writeSettles :: "nat \<Rightarrow> 'e option \<Rightarrow> 'e workerPool \<Rightarrow> 'e workerPool" where
  "writeSettles rid result s =
     (case objects s rid of
        None \<Rightarrow> s
      | Some t \<Rightarrow>
          (case chainError t of
             Some e \<Rightarrow> s
           | None \<Rightarrow>
               (case chainQueue t of
                  WriteJob files # rest \<Rightarrow> advanceChain rid result rest s
                | _ \<Rightarrow> s)))"

text \<open>What happens to a pool, and the pool after a sequence of such events.\<close>

datatype 'e poolEvent =
  Submit jsstring | WorkerError nat 'e | Message nat "'e message" | WriteSettles nat "'e option"

fun poolStep :: "'e workerPool \<Rightarrow> 'e poolEvent \<Rightarrow> 'e workerPool" where
  "poolStep s (Submit dir) = process dir s"
| "poolStep s (WorkerError w e) = workerEmitsError w e s"
| "poolStep s (Message w msg) = onMessage msg s"
| "poolStep s (WriteSettles rid result) = writeSettles rid result s"

definition poolAfter :: "nat \<Rightarrow> 'e poolEvent list \<Rightarrow> 'e workerPool" where
  "poolAfter count events = foldl poolStep (newPool count) events"

lemmas pool_eval =
  poolAfter_def newPool_def process_def workerEmitsError_def onWorkerError_def failTask_def
  fulfilTask_def onMessage_def writeSettles_def advanceChain_def setChain_def settleAs_def
  promiseOf_def

text \<open>
  C7, as stated, fails: in a pool of two workers with one request posted to each, an
  error of worker \<open>0\<close> rejects both requests, also the one posted to worker \<open>1\<close>.
\<close>

theorem worker_error_rejects_other_workers_request:
  "tasks (poolAfter 2 [Submit (js ''a''), Submit (js ''b'')] :: string workerPool) = [1, 2] \<and>
   map_option postedTo (objects (poolAfter 2 [Submit (js ''a''), Submit (js ''b'')] :: string workerPool) 1)
     = Some 0 \<and>
   map_option postedTo (objects (poolAfter 2 [Submit (js ''a''), Submit (js ''b'')] :: string workerPool) 2)
     = Some 1 \<and>
   promiseOf (poolAfter 2 [Submit (js ''a''), Submit (js ''b'')] :: string workerPool) 2 = Some Unsettled \<and>
   promiseOf (poolAfter 2 [Submit (js ''a''), Submit (js ''b''), WorkerError 0 ''boom'']) 1
     = Some (RejectedWith ''boom'') \<and>
   promiseOf (poolAfter 2 [Submit (js ''a''), Submit (js ''b''), WorkerError 0 ''boom'']) 2
     = Some (RejectedWith ''boom'') \<and>
   rejectCalls (poolAfter 2 [Submit (js ''a''), Submit (js ''b''), WorkerError 0 ''boom''])
     = [(1, ''boom''), (2, ''boom'')] \<and>
   tasks (poolAfter 2 [Submit (js ''a''), Submit (js ''b''), WorkerError 0 ''boom'']) = []"
  by (simp add: pool_eval)


text \<open>
  The call of \<open>reject\<close> can be made twice for one request: when a worker error comes
  between the \<open>done\<close> of a request and the end of its writes, \<open>onWorkerError\<close> rejects the
  request, and the callback of the \<open>done\<close> calls \<open>reject\<close> (or \<open>resolve\<close>) again when the
  writes end. The promise keeps its first state.
\<close>

lemma reject_called_twice:
  "rejectCalls (poolAfter 1 [Submit d, Message 0 (Chunk 1 fs), Message 0 (Done 1),
       WorkerError 0 ''boom'', WriteSettles 1 (Some ''disk'')])
     = [(1, ''boom''), (1, ''disk'')] \<and>
   promiseOf (poolAfter 1 [Submit d, Message 0 (Chunk 1 fs), Message 0 (Done 1),
       WorkerError 0 ''boom'', WriteSettles 1 (Some ''disk'')]) 1
     = Some (RejectedWith ''boom'')"
  by (simp add: pool_eval)

text \<open>
  What holds in every state of a pool of \<open>count\<close> workers: the requests in the table are
  the requests whose promise is not settled, every request was posted to a worker of the
  pool, and the ids of the requests are below \<open>nextTaskId\<close>.
\<close>

definition poolInv :: "nat \<Rightarrow> 'e workerPool \<Rightarrow> bool" where
  "poolInv count s \<longleftrightarrow>
     workerCount s = count \<and> nextWorkerIdx s < count \<and> distinct (tasks s) \<and>
     (\<forall>rid. rid \<in> set (tasks s) \<longleftrightarrow> promiseOf s rid = Some Unsettled) \<and>
     (\<forall>rid t. objects s rid = Some t \<longrightarrow> rid < nextTaskId s \<and> postedTo t < count)"

lemma poolInvD:
  assumes "poolInv count s"
  shows "workerCount s = count" and "nextWorkerIdx s < count" and "distinct (tasks s)"
    and "\<And>rid. rid \<in> set (tasks s) \<longleftrightarrow> promiseOf s rid = Some Unsettled"
    and "\<And>rid t. objects s rid = Some t \<Longrightarrow> rid < nextTaskId s"
    and "\<And>rid t. objects s rid = Some t \<Longrightarrow> postedTo t < count"
  using assms unfolding poolInv_def by blast+

lemma poolInvI:
  assumes "workerCount s = count" and "nextWorkerIdx s < count" and "distinct (tasks s)"
    and "\<And>rid. rid \<in> set (tasks s) \<longleftrightarrow> promiseOf s rid = Some Unsettled"
    and "\<And>rid t. objects s rid = Some t \<Longrightarrow> rid < nextTaskId s"
    and "\<And>rid t. objects s rid = Some t \<Longrightarrow> postedTo t < count"
  shows "poolInv count s"
  using assms unfolding poolInv_def by blast

lemma poolInv_new: "0 < count \<Longrightarrow> poolInv count (newPool count)"
  by (simp add: poolInv_def newPool_def promiseOf_def)

lemma settleAs_Unsettled [simp]:
  "settleAs (RejectedWith e) st = Unsettled \<longleftrightarrow> False"
  "settleAs Fulfilled st = Unsettled \<longleftrightarrow> False"
  by (simp_all add: settleAs_def)

lemma settleAs_settled [simp]: "st \<noteq> Unsettled \<Longrightarrow> settleAs new st = st"
  by (simp add: settleAs_def)

lemma promiseOf_failTask:
  "promiseOf (failTask i e s) rid =
     (if rid = i then map_option (settleAs (RejectedWith e)) (promiseOf s rid)
      else promiseOf s rid)"
  by (simp add: promiseOf_def failTask_def option.map_comp comp_def)

lemma promiseOf_fulfilTask:
  "promiseOf (fulfilTask i s) rid =
     (if rid = i then map_option (settleAs Fulfilled) (promiseOf s rid) else promiseOf s rid)"
  by (simp add: promiseOf_def fulfilTask_def option.map_comp comp_def)

lemma promiseOf_setChain [simp]: "promiseOf (setChain i err q s) rid = promiseOf s rid"
  by (simp add: promiseOf_def setChain_def option.map_comp comp_def)

lemma poolInv_failTask:
  assumes inv: "poolInv count s"
  shows "poolInv count (failTask i e s)"
proof (rule poolInvI)
  note D = poolInvD[OF inv]
  show "workerCount (failTask i e s) = count" using D(1) by (simp add: failTask_def)
  show "nextWorkerIdx (failTask i e s) < count" using D(2) by (simp add: failTask_def)
  show "distinct (tasks (failTask i e s))" using D(3) by (simp add: failTask_def distinct_removeAll)
  show "rid \<in> set (tasks (failTask i e s)) \<longleftrightarrow> promiseOf (failTask i e s) rid = Some Unsettled"
    for rid
    unfolding promiseOf_failTask using D(4)[of rid] by (simp add: failTask_def)
  show "rid < nextTaskId (failTask i e s)" if "objects (failTask i e s) rid = Some t" for rid t
  proof -
    from that obtain t0 where "objects s rid = Some t0"
      by (auto simp: failTask_def split: if_splits)
    from D(5)[OF this] show ?thesis by (simp add: failTask_def)
  qed
  show "postedTo t < count" if "objects (failTask i e s) rid = Some t" for rid t
  proof -
    from that obtain t0 where "objects s rid = Some t0" "postedTo t = postedTo t0"
      by (auto simp: failTask_def split: if_splits)
    with D(6)[of rid t0] show ?thesis by simp
  qed
qed

lemma poolInv_fulfilTask:
  assumes inv: "poolInv count s"
  shows "poolInv count (fulfilTask i s)"
proof (rule poolInvI)
  note D = poolInvD[OF inv]
  show "workerCount (fulfilTask i s) = count" using D(1) by (simp add: fulfilTask_def)
  show "nextWorkerIdx (fulfilTask i s) < count" using D(2) by (simp add: fulfilTask_def)
  show "distinct (tasks (fulfilTask i s))" using D(3) by (simp add: fulfilTask_def distinct_removeAll)
  show "rid \<in> set (tasks (fulfilTask i s)) \<longleftrightarrow> promiseOf (fulfilTask i s) rid = Some Unsettled"
    for rid
    unfolding promiseOf_fulfilTask using D(4)[of rid] by (simp add: fulfilTask_def)
  show "rid < nextTaskId (fulfilTask i s)" if "objects (fulfilTask i s) rid = Some t" for rid t
  proof -
    from that obtain t0 where "objects s rid = Some t0"
      by (auto simp: fulfilTask_def split: if_splits)
    from D(5)[OF this] show ?thesis by (simp add: fulfilTask_def)
  qed
  show "postedTo t < count" if "objects (fulfilTask i s) rid = Some t" for rid t
  proof -
    from that obtain t0 where "objects s rid = Some t0" "postedTo t = postedTo t0"
      by (auto simp: fulfilTask_def split: if_splits)
    with D(6)[of rid t0] show ?thesis by simp
  qed
qed

lemma poolInv_setChain:
  assumes inv: "poolInv count s"
  shows "poolInv count (setChain i err q s)"
proof (rule poolInvI)
  note D = poolInvD[OF inv]
  show "workerCount (setChain i err q s) = count" using D(1) by (simp add: setChain_def)
  show "nextWorkerIdx (setChain i err q s) < count" using D(2) by (simp add: setChain_def)
  show "distinct (tasks (setChain i err q s))" using D(3) by (simp add: setChain_def)
  have ts: "tasks (setChain i err q s) = tasks s" by (simp add: setChain_def)
  show "rid \<in> set (tasks (setChain i err q s)) \<longleftrightarrow>
      promiseOf (setChain i err q s) rid = Some Unsettled" for rid
    unfolding ts promiseOf_setChain by (rule D(4))
  show "rid < nextTaskId (setChain i err q s)" if "objects (setChain i err q s) rid = Some t"
    for rid t
  proof -
    from that obtain t0 where "objects s rid = Some t0"
      by (auto simp: setChain_def split: if_splits)
    from D(5)[OF this] show ?thesis by (simp add: setChain_def)
  qed
  show "postedTo t < count" if "objects (setChain i err q s) rid = Some t" for rid t
  proof -
    from that obtain t0 where "objects s rid = Some t0" "postedTo t = postedTo t0"
      by (auto simp: setChain_def split: if_splits)
    with D(6)[of rid t0] show ?thesis by simp
  qed
qed

lemma poolInv_process:
  assumes inv: "poolInv count s"
  shows "poolInv count (process dir s)"
proof (rule poolInvI)
  note D = poolInvD[OF inv]
  let ?n = "nextTaskId s"
  have none: "objects s ?n = None"
  proof (cases "objects s ?n")
    case (Some t)
    from D(5)[OF this] show ?thesis by simp
  qed simp
  then have fresh: "?n \<notin> set (tasks s)" using D(4)[of ?n] by (simp add: promiseOf_def)
  show "workerCount (process dir s) = count" using D(1) by (simp add: process_def Let_def)
  show "nextWorkerIdx (process dir s) < count"
    using D(1) D(2) by (simp add: process_def Let_def)
  show "distinct (tasks (process dir s))" using D(3) fresh by (simp add: process_def Let_def)
  show "rid \<in> set (tasks (process dir s)) \<longleftrightarrow> promiseOf (process dir s) rid = Some Unsettled"
    for rid
    using D(4)[of rid] fresh by (auto simp: process_def Let_def promiseOf_def)
  show "rid < nextTaskId (process dir s)" if "objects (process dir s) rid = Some t" for rid t
  proof (cases "rid = ?n")
    case True
    then show ?thesis by (simp add: process_def Let_def)
  next
    case False
    with that have "objects s rid = Some t" by (simp add: process_def Let_def)
    from D(5)[OF this] show ?thesis by (simp add: process_def Let_def)
  qed
  show "postedTo t < count" if "objects (process dir s) rid = Some t" for rid t
  proof (cases "rid = ?n")
    case True
    with that have "postedTo t = nextWorkerIdx s" by (auto simp: process_def Let_def)
    with D(2) show ?thesis by simp
  next
    case False
    with that have "objects s rid = Some t" by (simp add: process_def Let_def)
    from D(6)[OF this] show ?thesis .
  qed
qed

lemma poolInv_runChain:
  "poolInv count s \<Longrightarrow> poolInv count (snd (runChain i err q s))"
proof (induction i err q s rule: runChain.induct)
  case (1 rid err s)
  then show ?case by simp
next
  case (2 rid err rest s)
  have "poolInv count (case err of None \<Rightarrow> fulfilTask rid s | Some e \<Rightarrow> failTask rid e s)"
    using "2.prems" by (cases err) (simp_all add: poolInv_fulfilTask poolInv_failTask)
  from "2.IH"[OF this] show ?case by simp
next
  case (3 rid err files rest s)
  then show ?case by (cases err) simp_all
qed

lemma poolInv_advanceChain:
  "poolInv count s \<Longrightarrow> poolInv count (advanceChain i err q s)"
  using poolInv_runChain[of count s i err q]
  by (simp add: advanceChain_def case_prod_beta poolInv_setChain)

lemma poolInv_foldl_failTask:
  "poolInv count s \<Longrightarrow> poolInv count (foldl (\<lambda>s' rid. failTask rid e s') s ids)"
  by (induction ids arbitrary: s) (simp_all add: poolInv_failTask)

lemma poolInv_onWorkerError: "poolInv count s \<Longrightarrow> poolInv count (onWorkerError e s)"
  by (simp add: onWorkerError_def poolInv_foldl_failTask)

lemma poolInv_onMessage: "poolInv count s \<Longrightarrow> poolInv count (onMessage msg s)"
  by (cases msg)
     (auto simp: onMessage_def poolInv_failTask poolInv_advanceChain split: option.splits)

lemma poolInv_writeSettles: "poolInv count s \<Longrightarrow> poolInv count (writeSettles i result s)"
  by (auto simp: writeSettles_def poolInv_advanceChain split: option.splits list.splits link.splits)

lemma poolInv_step: "poolInv count s \<Longrightarrow> poolInv count (poolStep s ev)"
  by (cases ev)
     (simp_all add: poolInv_process poolInv_onWorkerError poolInv_onMessage poolInv_writeSettles
        workerEmitsError_def)

lemma poolInv_foldl: "poolInv count s \<Longrightarrow> poolInv count (foldl poolStep s events)"
  by (induction events arbitrary: s) (simp_all add: poolInv_step)

lemma poolInv_after: "0 < count \<Longrightarrow> poolInv count (poolAfter count events)"
  unfolding poolAfter_def by (intro poolInv_foldl poolInv_new)

text \<open>A promise that is settled keeps its state: \<open>keeps s s'\<close> says so for every request
  of \<open>s\<close>.\<close>

definition keeps :: "'e workerPool \<Rightarrow> 'e workerPool \<Rightarrow> bool" where
  "keeps s s' \<longleftrightarrow>
     (\<forall>rid st. promiseOf s rid = Some st \<and> st \<noteq> Unsettled \<longrightarrow> promiseOf s' rid = Some st)"

lemma keeps_refl: "keeps s s"
  by (simp add: keeps_def)

lemma keeps_trans: "keeps s s' \<Longrightarrow> keeps s' s'' \<Longrightarrow> keeps s s''"
  unfolding keeps_def by blast

lemma keeps_failTask: "keeps s (failTask i e s)"
  by (auto simp: keeps_def promiseOf_failTask)

lemma keeps_fulfilTask: "keeps s (fulfilTask i s)"
  by (auto simp: keeps_def promiseOf_fulfilTask)

lemma keeps_setChain: "keeps s (setChain i err q s)"
  by (simp add: keeps_def)

lemma keeps_runChain: "keeps s (snd (runChain i err q s))"
proof (induction i err q s rule: runChain.induct)
  case (1 rid err s)
  then show ?case by (simp add: keeps_refl)
next
  case (2 rid err rest s)
  have "keeps s (case err of None \<Rightarrow> fulfilTask rid s | Some e \<Rightarrow> failTask rid e s)"
    by (cases err) (simp_all add: keeps_fulfilTask keeps_failTask)
  from keeps_trans[OF this "2.IH"] show ?case by simp
next
  case (3 rid err files rest s)
  then show ?case by (cases err) (simp_all add: keeps_refl)
qed

lemma keeps_advanceChain: "keeps s (advanceChain i err q s)"
  using keeps_trans[OF keeps_runChain[of s i err q] keeps_setChain]
  by (simp add: advanceChain_def case_prod_beta)

lemma keeps_foldl_failTask: "keeps s (foldl (\<lambda>s' rid. failTask rid e s') s ids)"
proof (induction ids arbitrary: s)
  case Nil
  then show ?case by (simp add: keeps_refl)
next
  case (Cons i ids)
  from keeps_trans[OF keeps_failTask Cons.IH] show ?case by simp
qed

lemma keeps_process:
  assumes "poolInv count s"
  shows "keeps s (process dir s)"
proof -
  have "objects s (nextTaskId s) = None"
  proof (cases "objects s (nextTaskId s)")
    case (Some t)
    from poolInvD(5)[OF assms this] show ?thesis by simp
  qed simp
  then show ?thesis by (auto simp: keeps_def promiseOf_def process_def Let_def)
qed

lemma keeps_step:
  assumes "poolInv count s"
  shows "keeps s (poolStep s ev)"
proof (cases ev)
  case (Submit dir)
  with keeps_process[OF assms] show ?thesis by simp
next
  case (WorkerError w e)
  then show ?thesis by (simp add: workerEmitsError_def onWorkerError_def keeps_foldl_failTask)
next
  case (Message w msg)
  then show ?thesis
    by (cases msg)
       (auto simp: onMessage_def keeps_refl keeps_failTask keeps_advanceChain split: option.splits)
next
  case (WriteSettles i result)
  then show ?thesis
    by (auto simp: writeSettles_def keeps_refl keeps_advanceChain
        split: option.splits list.splits link.splits)
qed

lemma keeps_foldl:
  "poolInv count s \<Longrightarrow> keeps s (foldl poolStep s events)"
proof (induction events arbitrary: s)
  case Nil
  then show ?case by (simp add: keeps_refl)
next
  case (Cons ev events)
  from keeps_trans[OF keeps_step[OF Cons.prems] Cons.IH[OF poolInv_step[OF Cons.prems]]]
  show ?case by simp
qed

text \<open>The loop of \<open>onWorkerError\<close> over a list of ids.\<close>

lemma foldl_failTask_tasks:
  "tasks (foldl (\<lambda>s' rid. failTask rid e s') s ids) = filter (\<lambda>i. i \<notin> set ids) (tasks s)"
proof (induction ids arbitrary: s)
  case Nil
  then show ?case by simp
next
  case (Cons i ids)
  have t: "tasks (failTask i e s) = filter (\<lambda>x. i \<noteq> x) (tasks s)"
    by (simp add: failTask_def removeAll_filter_not_eq)
  have "tasks (foldl (\<lambda>s' rid. failTask rid e s') s (i # ids))
      = filter (\<lambda>x. x \<notin> set ids) (filter (\<lambda>x. i \<noteq> x) (tasks s))"
    using Cons.IH[of "failTask i e s"] unfolding t by simp
  also have "\<dots> = filter (\<lambda>x. x \<notin> set (i # ids)) (tasks s)"
    unfolding filter_filter by (rule filter_cong) auto
  finally show ?case .
qed

lemma foldl_failTask_promise:
  "promiseOf (foldl (\<lambda>s' rid. failTask rid e s') s ids) rid =
      (if rid \<in> set ids then map_option (settleAs (RejectedWith e)) (promiseOf s rid)
       else promiseOf s rid)"
proof (induction ids arbitrary: s)
  case Nil
  then show ?case by simp
next
  case (Cons i ids)
  have idem: "map_option (settleAs (RejectedWith e)) (map_option (settleAs (RejectedWith e)) x)
      = map_option (settleAs (RejectedWith e)) x" for x :: "'a promiseState option"
    by (cases x) (simp_all add: settleAs_def)
  show ?case
    using Cons.IH[of "failTask i e s"] by (simp add: promiseOf_failTask idem)
qed

lemma onWorkerError_effect:
  "tasks (onWorkerError e s) = [] \<and>
   (\<forall>rid. promiseOf (onWorkerError e s) rid =
      (if rid \<in> set (tasks s) then map_option (settleAs (RejectedWith e)) (promiseOf s rid)
       else promiseOf s rid))"
  using foldl_failTask_tasks[of e s "tasks s"] foldl_failTask_promise[of e s "tasks s"]
  by (simp add: onWorkerError_def)


text \<open>
  C7, amended. In a pool of at least one worker, after any sequence of submissions,
  worker errors, messages and ends of writes: an error of any worker rejects, with that
  error, every request of the pool that is not settled yet, whichever worker it was
  posted to, and empties the table, which holds exactly the requests that are not
  settled; the requests that were fulfilled or rejected before stay as they were; and
  whatever happens afterwards, the messages and the ends of the writes of the rejected
  requests included, every request keeps the state it has after the error.
\<close>

theorem worker_error_rejects_all_in_flight:
  assumes "0 < count" and "s = poolAfter count events"
  shows "(\<forall>rid t. objects s rid = Some t \<and> promise t = Unsettled \<longrightarrow>
            postedTo t < count \<and>
            promiseOf (workerEmitsError w e s) rid = Some (RejectedWith e)) \<and>
         (\<forall>rid st. promiseOf s rid = Some st \<and> st \<noteq> Unsettled \<longrightarrow>
            promiseOf (workerEmitsError w e s) rid = Some st) \<and>
         set (tasks s) = {rid. promiseOf s rid = Some Unsettled} \<and>
         tasks (workerEmitsError w e s) = [] \<and>
         (\<forall>rid later. promiseOf s rid = Some Unsettled \<longrightarrow>
            promiseOf (foldl poolStep (workerEmitsError w e s) later) rid
              = Some (RejectedWith e)) \<and>
         (\<forall>rid st later. promiseOf s rid = Some st \<and> st \<noteq> Unsettled \<longrightarrow>
            promiseOf (foldl poolStep (workerEmitsError w e s) later) rid = Some st)"
proof -
  let ?s' = "workerEmitsError w e s"
  have inv: "poolInv count s" unfolding assms(2) using assms(1) by (rule poolInv_after)
  note D = poolInvD[OF inv]
  have inv': "poolInv count ?s'"
    unfolding workerEmitsError_def using inv by (rule poolInv_onWorkerError)
  have eff: "promiseOf ?s' rid =
      (if rid \<in> set (tasks s) then map_option (settleAs (RejectedWith e)) (promiseOf s rid)
       else promiseOf s rid)" for rid
    using onWorkerError_effect[of e s] by (simp add: workerEmitsError_def)
  have rej: "promiseOf ?s' rid = Some (RejectedWith e)" if "promiseOf s rid = Some Unsettled"
    for rid
    using that D(4)[of rid] eff[of rid] by (simp add: settleAs_def)
  have same: "promiseOf ?s' rid = Some st" if "promiseOf s rid = Some st" "st \<noteq> Unsettled"
    for rid st
    using that D(4)[of rid] eff[of rid] by simp
  have c1: "postedTo t < count \<and> promiseOf ?s' rid = Some (RejectedWith e)"
    if "objects s rid = Some t" "promise t = Unsettled" for rid t
  proof -
    from that have "promiseOf s rid = Some Unsettled" by (simp add: promiseOf_def)
    from rej[OF this] D(6)[OF that(1)] show ?thesis by simp
  qed
  have c3: "set (tasks s) = {rid. promiseOf s rid = Some Unsettled}"
    using D(4) by auto
  have c4: "tasks ?s' = []"
    using onWorkerError_effect[of e s] by (simp add: workerEmitsError_def)
  have later: "promiseOf (foldl poolStep ?s' later) rid = Some st"
    if "promiseOf ?s' rid = Some st" "st \<noteq> Unsettled" for rid st later
    using keeps_foldl[OF inv', of later] that unfolding keeps_def by blast
  have c5: "promiseOf (foldl poolStep ?s' later) rid = Some (RejectedWith e)"
    if "promiseOf s rid = Some Unsettled" for rid later
    using later[OF rej[OF that]] by simp
  have c6: "promiseOf (foldl poolStep ?s' later) rid = Some st"
    if "promiseOf s rid = Some st" "st \<noteq> Unsettled" for rid st later
    using later[OF same[OF that] that(2)] .
  from c1 same c3 c4 c5 c6 show ?thesis by blast
qed

theorem worker_error_rejects_all_in_flight_witness:
  "map (promiseOf (poolAfter 2 [Submit [], Submit [], Submit [], Message 1 (ErrorMsg 2 ''bad''),
          Message 0 (Chunk 1 []), Message 0 (Done 1), WriteSettles 1 None])) [1, 2, 3]
     = [Some Fulfilled, Some (RejectedWith ''bad''), Some Unsettled] \<and>
   map_option postedTo (objects (poolAfter 2 [Submit [], Submit [], Submit [],
          Message 1 (ErrorMsg 2 ''bad''), Message 0 (Chunk 1 []), Message 0 (Done 1),
          WriteSettles 1 None] :: string workerPool) 3) = Some 0 \<and>
   tasks (poolAfter 2 [Submit [], Submit [], Submit [], Message 1 (ErrorMsg 2 ''bad''),
          Message 0 (Chunk 1 []), Message 0 (Done 1), WriteSettles 1 None] :: string workerPool)
     = [3] \<and>
   map (promiseOf (workerEmitsError 1 ''boom''
          (poolAfter 2 [Submit [], Submit [], Submit [], Message 1 (ErrorMsg 2 ''bad''),
             Message 0 (Chunk 1 []), Message 0 (Done 1), WriteSettles 1 None]))) [1, 2, 3]
     = [Some Fulfilled, Some (RejectedWith ''bad''), Some (RejectedWith ''boom'')] \<and>
   map (promiseOf (foldl poolStep (workerEmitsError 1 ''boom''
          (poolAfter 2 [Submit [], Submit [], Submit [], Message 1 (ErrorMsg 2 ''bad''),
             Message 0 (Chunk 1 []), Message 0 (Done 1), WriteSettles 1 None]))
          [Message 0 (Done 3), WriteSettles 3 None, Submit []])) [1, 2, 3, 4]
     = [Some Fulfilled, Some (RejectedWith ''bad''), Some (RejectedWith ''boom''),
        Some Unsettled]"
proof -
  let ?evs = "[Submit [], Submit [], Submit [], Message 1 (ErrorMsg 2 ''bad''),
      Message 0 (Chunk 1 []), Message 0 (Done 1), WriteSettles 1 None] :: string poolEvent list"
  let ?s = "poolAfter 2 ?evs"
  let ?later = "[Message 0 (Done 3), WriteSettles 3 None, Submit []] :: string poolEvent list"
  have p: "promiseOf ?s 1 = Some Fulfilled" "promiseOf ?s 2 = Some (RejectedWith ''bad'')"
    "promiseOf ?s 3 = Some Unsettled"
    by (simp_all add: pool_eval)
  have o: "map_option postedTo (objects ?s 3) = Some 0" "tasks ?s = [3]"
    by (simp_all add: pool_eval)
  have n: "promiseOf (foldl poolStep (workerEmitsError 1 ''boom'' ?s) ?later) 4 = Some Unsettled"
    by (simp add: pool_eval)
  have c: "(0::nat) < 2" by simp
  note T = worker_error_rejects_all_in_flight[OF c refl, of ?evs 1 "''boom''"]
  note T2 = T[THEN conjunct2]
  note T5 = T2[THEN conjunct2, THEN conjunct2, THEN conjunct2]
  have a1: "promiseOf (workerEmitsError 1 ''boom'' ?s) 1 = Some Fulfilled"
    using T2[THEN conjunct1, THEN spec[where x = 1], THEN spec[where x = Fulfilled]] p(1) by simp
  have a2: "promiseOf (workerEmitsError 1 ''boom'' ?s) 2 = Some (RejectedWith ''bad'')"
    using T2[THEN conjunct1, THEN spec[where x = 2], THEN spec[where x = "RejectedWith ''bad''"]]
      p(2) by simp
  obtain t where t: "objects ?s 3 = Some t" "promise t = Unsettled"
    using p(3) by (auto simp: promiseOf_def)
  have a3: "promiseOf (workerEmitsError 1 ''boom'' ?s) 3 = Some (RejectedWith ''boom'')"
    using T[THEN conjunct1, THEN spec[where x = 3], THEN spec[where x = t]] t by simp
  have b1: "promiseOf (foldl poolStep (workerEmitsError 1 ''boom'' ?s) ?later) 1 = Some Fulfilled"
    using T5[THEN conjunct2, THEN spec[where x = 1], THEN spec[where x = Fulfilled],
        THEN spec[where x = ?later]] p(1) by simp
  have b2: "promiseOf (foldl poolStep (workerEmitsError 1 ''boom'' ?s) ?later) 2
      = Some (RejectedWith ''bad'')"
    using T5[THEN conjunct2, THEN spec[where x = 2], THEN spec[where x = "RejectedWith ''bad''"],
        THEN spec[where x = ?later]] p(2) by simp
  have b3: "promiseOf (foldl poolStep (workerEmitsError 1 ''boom'' ?s) ?later) 3
      = Some (RejectedWith ''boom'')"
    using T5[THEN conjunct1, THEN spec[where x = 3], THEN spec[where x = ?later]] p(3) by simp
  from p o n a1 a2 a3 b1 b2 b3 show ?thesis by simp
qed

end
